theory Spec2Isabelle
  imports Main "HOL-Library.Word" "HOL-Library.Multiset"
begin

unbundle bit_operations_syntax

section \<open>Package rlp: the Item codec\<close>

text \<open>
  Bytes are 8-bit words, byte slices are lists of them. A Go run-time panic is a value of
  type \<open>panic\<close>; a function that may panic returns \<open>panic + 'a\<close>.
\<close>

type_synonym byte = "8 word"
type_synonym bytes = "byte list"

datatype panic = IndexOutOfRange | SliceBounds | NilMapAssign

definition str1H :: byte where "str1H = 127"
definition str55L :: byte where "str55L = 128"
definition str55H :: byte where "str55H = 183"
definition strNH :: byte where "strNH = 191"
definition list55L :: byte where "list55L = 192"
definition list55H :: byte where "list55H = 247"
definition listNL :: byte where "listNL = 248"

text \<open>
  \<open>type Item struct { D []byte; L []*Item }\<close>. Either field may be nil (\<open>None\<close>) or
  set, independently of the other; a non-nil empty slice is \<open>Some []\<close>. The pointers held
  in \<open>L\<close> are taken to be non-nil.
\<close>

datatype Item = Item (D: "bytes option") (L: "Item list option")

subsection \<open>encoding/binary: PutUvarint and Uvarint\<close>

text \<open>
  The two functions of Go's standard library that the codec calls, transcribed from
  \<open>encoding/binary/varint.go\<close>. \<open>uvarint_bytes x\<close> is the sequence of bytes
  that \<open>PutUvarint\<close> stores for \<open>x\<close>: seven bits at a time, least significant group
  first, bit 7 set on every byte but the last. \<open>PutUvarint n x\<close> writes them into a
  buffer of \<open>n\<close> bytes and panics when an index reaches \<open>n\<close>.
\<close>

function uvarint_bytes :: "64 word \<Rightarrow> bytes" where
  "uvarint_bytes x =
     (if 0x80 \<le> x then (ucast x OR 0x80) # uvarint_bytes (drop_bit 7 x) else [ucast x])"
  by pat_completeness auto
termination
proof (relation "measure unat")
  show "wf (measure unat)" by simp
next
  fix x :: "64 word"
  assume "0x80 \<le> x"
  then have "128 \<le> unat x" by (simp add: word_le_nat_alt)
  then have "unat x div 128 < unat x" by simp
  then show "(drop_bit 7 x, x) \<in> measure unat"
    by (simp add: unat_drop_bit_eq drop_bit_eq_div unat_div)
qed

declare uvarint_bytes.simps [simp del]

definition PutUvarint :: "nat \<Rightarrow> 64 word \<Rightarrow> panic + bytes" where
  "PutUvarint buflen x =
     (if length (uvarint_bytes x) \<le> buflen then Inr (uvarint_bytes x) else Inl IndexOutOfRange)"

text \<open>
  \<open>Uvarint\<close> returns the decoded value and a byte count; the codec drops the count, so
  only the value is kept: 0 when the buffer ends before a byte below 0x80, and 0 on
  overflow past ten bytes.
\<close>

fun uvarint_loop :: "bytes \<Rightarrow> 64 word \<Rightarrow> nat \<Rightarrow> nat \<Rightarrow> 64 word" where
  "uvarint_loop [] x s i = 0"
| "uvarint_loop (b # bs) x s i =
     (if i = 10 then 0
      else if b < 0x80 then (if i = 9 \<and> 1 < b then 0 else x OR push_bit s (ucast b))
      else uvarint_loop bs (x OR push_bit s (ucast (b AND 0x7f))) (s + 7) (i + 1))"

definition Uvarint :: "bytes \<Rightarrow> 64 word" where
  "Uvarint buf = uvarint_loop buf 0 0 0"

subsection \<open>Encode\<close>

definition encodeLength :: "byte \<Rightarrow> nat \<Rightarrow> panic + bytes" where
  "encodeLength t l =
     (case PutUvarint 8 (of_nat l) of
        Inl e \<Rightarrow> Inl e
      | Inr buf \<Rightarrow> Inr ((t + of_nat (length buf)) # buf))"

definition encode_string :: "bytes \<Rightarrow> panic + bytes" where
  "encode_string d =
     (if length d = 1 \<and> hd d \<le> str1H then Inr d
      else if length d \<le> 55 then Inr ((str55L + of_nat (length d)) # d)
      else (case encodeLength str55H (length d) of
              Inl e \<Rightarrow> Inl e
            | Inr h \<Rightarrow> Inr (h @ d)))"

definition encode_list_header :: "bytes \<Rightarrow> panic + bytes" where
  "encode_list_header out =
     (if length out \<le> 55 then Inr ((list55L + of_nat (length out)) # out)
      else (case encodeLength list55H (length out) of
              Inl e \<Rightarrow> Inl e
            | Inr h \<Rightarrow> Inr (h @ out)))"

text \<open>
  \<open>Encode\<close> looks at \<open>D\<close> first and, when it is non-nil, never reads \<open>L\<close>. Otherwise
  \<open>Encode_loop\<close> is the \<open>for i := range input.L\<close> loop with its accumulator \<open>out\<close>;
  ranging over a nil slice runs no iteration.
\<close>

fun Encode :: "Item \<Rightarrow> panic + bytes"
  and Encode_loop :: "Item list \<Rightarrow> bytes \<Rightarrow> panic + bytes" where
  "Encode (Item (Some d) l) = encode_string d"
| "Encode (Item None None) = encode_list_header []"
| "Encode (Item None (Some xs)) =
     (case Encode_loop xs [] of Inl e \<Rightarrow> Inl e | Inr out \<Rightarrow> encode_list_header out)"
| "Encode_loop [] out = Inr out"
| "Encode_loop (x # xs) out =
     (case Encode x of Inl e \<Rightarrow> Inl e | Inr b \<Rightarrow> Encode_loop xs (out @ b))"

subsection \<open>Slices\<close>

text \<open>
  A Go slice is a window on a backing array: \<open>elems\<close> are the bytes below its length,
  \<open>spare\<close> the bytes of the array between its length and its capacity. An index
  expression is checked against the length, a slice expression \<open>s[lo:hi]\<close> against the
  capacity, so a slice expression may bring bytes of \<open>spare\<close> into view.
\<close>

record slice =
  elems :: bytes
  spare :: bytes

definition len :: "slice \<Rightarrow> nat" where
  "len s = length (elems s)"

definition cap :: "slice \<Rightarrow> nat" where
  "cap s = length (elems s) + length (spare s)"

definition index :: "slice \<Rightarrow> nat \<Rightarrow> panic + byte" where
  "index s i = (if i < len s then Inr (elems s ! i) else Inl IndexOutOfRange)"

definition reslice :: "slice \<Rightarrow> int \<Rightarrow> int \<Rightarrow> panic + slice" where
  "reslice s lo hi =
     (if 0 \<le> lo \<and> lo \<le> hi \<and> hi \<le> int (cap s)
      then Inr \<lparr>elems = take (nat (hi - lo)) (drop (nat lo) (elems s @ spare s)),
                spare = drop (nat hi) (elems s @ spare s)\<rparr>
      else Inl SliceBounds)"

subsection \<open>Decode\<close>

text \<open>
  \<open>decodeLength\<close>: \<open>n\<close> is a byte, so \<open>n+1\<close> wraps at 256; the conversion
  \<open>int(length)\<close> of a \<open>uint64\<close> reads it as two's complement.
\<close>

definition decodeLength :: "byte \<Rightarrow> slice \<Rightarrow> panic + int" where
  "decodeLength t input =
     (case index input 0 of
        Inl e \<Rightarrow> Inl e
      | Inr b \<Rightarrow>
          (let n = b - t in
           case reslice input 1 (uint (n + 1)) of
             Inl e \<Rightarrow> Inl e
           | Inr buf \<Rightarrow> Inr (uint n + sint (Uvarint (elems buf)))))"

text \<open>
  The inner \<open>switch\<close> of the list loop: the number of bytes \<open>n\<close> that the child starting
  at \<open>input[i]\<close> declares for itself, header included.
\<close>

definition child_len :: "slice \<Rightarrow> nat \<Rightarrow> panic + int" where
  "child_len input i =
     (case index input i of
        Inl e \<Rightarrow> Inl e
      | Inr b \<Rightarrow>
          if b \<le> str1H then Inr 1
          else if b \<le> str55H then Inr (1 + uint (b - str55L))
          else if b \<le> strNH then
            (case reslice input (int i) (int (len input)) of
               Inl e \<Rightarrow> Inl e
             | Inr s \<Rightarrow> (case decodeLength str55H s of Inl e \<Rightarrow> Inl e | Inr dl \<Rightarrow> Inr (1 + dl)))
          else if b \<le> list55H then Inr (1 + uint (b - list55L))
          else
            (case reslice input (int i) (int (len input)) of
               Inl e \<Rightarrow> Inl e
             | Inr s \<Rightarrow> (case decodeLength list55H s of Inl e \<Rightarrow> Inl e | Inr dl \<Rightarrow> Inr (1 + dl))))"

subsection \<open>The list loop advances\<close>

lemma byte_lt_0x80_bit: "(b::byte) < 0x80 \<Longrightarrow> bit b n \<Longrightarrow> n < 7"
proof -
  assume b: "b < 0x80" and n: "bit b n"
  from b have "b < 2 ^ 7" by simp
  then have "b AND mask 7 = b" by (rule less_mask_eq)
  then have "take_bit 7 b = b" by (simp add: take_bit_eq_mask)
  with n have "bit (take_bit 7 b) n" by simp
  then show ?thesis by (simp add: bit_take_bit_iff)
qed

lemma byte_and_0x7f_bit: "bit ((b::byte) AND 0x7f) n \<Longrightarrow> n < 7"
proof -
  have "(0x7f::byte) = mask 7" by (simp add: mask_eq_exp_minus_1)
  then have "b AND 0x7f = take_bit 7 b" by (simp add: take_bit_eq_mask)
  then show "bit (b AND 0x7f) n \<Longrightarrow> n < 7" by (simp add: bit_take_bit_iff)
qed

lemma uvarint_loop_bits:
  "(\<And>j. bit x j \<Longrightarrow> j < s) \<Longrightarrow> bit (uvarint_loop bs x s i) j \<Longrightarrow> j < s + 7 * length bs"
proof (induction bs arbitrary: x s i)
  case Nil
  then show ?case by simp
next
  case (Cons b bs)
  show ?case
  proof (cases "i = 10")
    case True
    with Cons.prems show ?thesis by simp
  next
    case i: False
    show ?thesis
    proof (cases "b < 0x80")
      case True
      with i Cons.prems(2) have "bit (x OR push_bit s (ucast b :: 64 word)) j"
        by (simp split: if_splits)
      then have "bit x j \<or> (s \<le> j \<and> bit b (j - s))"
        by (auto simp: bit_or_iff bit_push_bit_iff bit_ucast_iff)
      with Cons.prems(1) byte_lt_0x80_bit[OF True] show ?thesis
        by fastforce
    next
      case False
      let ?x = "x OR push_bit s (ucast (b AND 0x7f) :: 64 word)"
      have step: "\<And>k. bit ?x k \<Longrightarrow> k < s + 7"
      proof -
        fix k assume "bit ?x k"
        then have "bit x k \<or> (s \<le> k \<and> bit (b AND 0x7f) (k - s))"
          by (auto simp: bit_or_iff bit_push_bit_iff bit_ucast_iff)
        with Cons.prems(1) byte_and_0x7f_bit show "k < s + 7"
          by fastforce
      qed
      from False i Cons.prems(2) have "bit (uvarint_loop bs ?x (s + 7) (i + 1)) j"
        by simp
      from Cons.IH[OF step this] show ?thesis by simp
    qed
  qed
qed

lemma Uvarint_nonneg: "length bs \<le> 9 \<Longrightarrow> 0 \<le> sint (Uvarint bs)"
proof -
  assume l: "length bs \<le> 9"
  have "\<not> bit (Uvarint bs) 63"
  proof
    assume "bit (Uvarint bs) 63"
    then have "63 < 0 + 7 * length bs"
      unfolding Uvarint_def by (rule uvarint_loop_bits[rotated]) simp
    with l show False by simp
  qed
  then show ?thesis using bit_last_iff[of "Uvarint bs"] by simp
qed

lemma reslice_length:
  "reslice s lo hi = Inr r \<Longrightarrow> length (elems r) = nat (hi - lo)"
  by (auto simp: reslice_def cap_def simp del: take_append drop_append split: if_splits)

lemma reslice_cap:
  "reslice s lo hi = Inr r \<Longrightarrow> cap r = cap s - nat lo"
  by (auto simp: reslice_def cap_def simp del: take_append drop_append split: if_splits)

lemma decodeLength_nonneg:
  assumes "decodeLength t s = Inr dl" and "hd (elems s) - t \<le> 8"
  shows "uint (hd (elems s) - t) \<le> dl"
proof -
  from assms(1) obtain buf where
    b: "reslice s 1 (uint (hd (elems s) - t + 1)) = Inr buf"
    and dl: "dl = uint (hd (elems s) - t) + sint (Uvarint (elems buf))"
    by (auto simp: decodeLength_def index_def len_def hd_conv_nth Let_def
             split: if_splits sum.splits)
  from assms(2) have "uint (hd (elems s) - t + 1) \<le> 9"
    by (simp add: word_le_def uint_word_ariths) 
  with reslice_length[OF b] have "length (elems buf) \<le> 9"
    by simp
  then have "0 \<le> sint (Uvarint (elems buf))" by (rule Uvarint_nonneg)
  with dl show ?thesis by simp
qed

lemma child_len_pos: "child_len input i = Inr n \<Longrightarrow> 1 \<le> n"
proof -
  assume c: "child_len input i = Inr n"
  then have i: "i < len input"
    by (auto simp: child_len_def index_def split: if_splits)
  define b where "b = elems input ! i"
  have hd: "\<And>s. reslice input (int i) (int (len input)) = Inr s \<Longrightarrow> hd (elems s) = b"
    using i by (auto simp: reslice_def len_def b_def hd_conv_nth hd_drop_conv_nth split: if_splits)
  have s8: "\<not> b \<le> str55H \<Longrightarrow> b \<le> strNH \<Longrightarrow> b - str55H \<le> 8"
    unfolding str55H_def strNH_def by (simp add: word_le_def uint_word_ariths) 
  have l8: "\<not> b \<le> list55H \<Longrightarrow> b - list55H \<le> 8"
    unfolding list55H_def using uint_bounded[of b]
    by (simp add: word_le_def uint_word_ariths)
  show ?thesis
  proof (cases "b \<le> str1H \<or> (b \<le> str55H) \<or> (\<not> b \<le> strNH \<and> b \<le> list55H)")
    case True
    with c i show ?thesis
      by (auto simp: child_len_def index_def b_def split: if_splits)
  next
    case False
    show ?thesis
    proof (cases "b \<le> strNH")
      case True
      with False c i obtain s dl where
        "reslice input (int i) (int (len input)) = Inr s" "decodeLength str55H s = Inr dl" "n = 1 + dl"
        by (auto simp: child_len_def index_def b_def split: if_splits sum.splits)
      with decodeLength_nonneg[of str55H s dl] hd[of s] s8 False True show ?thesis
        by (smt (verit) uint_ge_0)
    next
      case nstr: False
      with False c i obtain s dl where
        "reslice input (int i) (int (len input)) = Inr s" "decodeLength list55H s = Inr dl" "n = 1 + dl"
        by (auto simp: child_len_def index_def b_def split: if_splits sum.splits)
      with decodeLength_nonneg[of list55H s dl] hd[of s] l8 False nstr show ?thesis
        by (smt (verit) uint_ge_0)
    qed
  qed
qed

text \<open>
  \<open>Decode\<close> and the loop of its list branch. The loop bound is \<open>len(input)\<close>: the
  length that the list header declares is skipped over, never read as a bound.
\<close>

function Decode :: "slice \<Rightarrow> panic + Item"
  and Decode_loop :: "slice \<Rightarrow> nat \<Rightarrow> Item list \<Rightarrow> panic + Item list" where
  "Decode input =
     (case index input 0 of
        Inl e \<Rightarrow> Inl e
      | Inr b \<Rightarrow>
          if b \<le> str1H then Inr (Item (Some [b]) None)
          else if b \<le> str55H then
            (case reslice input 1 (uint (b - str1H)) of
               Inl e \<Rightarrow> Inl e
             | Inr d \<Rightarrow> Inr (Item (Some (elems d)) None))
          else if b \<le> strNH then
            (case decodeLength str55H input of
               Inl e \<Rightarrow> Inl e
             | Inr dl \<Rightarrow>
                 (case reslice input (uint (1 + (b - str55H))) (1 + dl) of
                    Inl e \<Rightarrow> Inl e
                  | Inr d \<Rightarrow> Inr (Item (Some (elems d)) None)))
          else
            (case Decode_loop input (if listNL \<le> b then 1 + unat (b - list55H) else 1) [] of
               Inl e \<Rightarrow> Inl e
             | Inr items \<Rightarrow> Inr (Item None (Some items))))"
| "Decode_loop input i items =
     (if i < len input then
        (case child_len input i of
           Inl e \<Rightarrow> Inl e
         | Inr n \<Rightarrow>
             (case reslice input (int i) (int i + n) of
                Inl e \<Rightarrow> Inl e
              | Inr child \<Rightarrow>
                  (case Decode child of
                     Inl e \<Rightarrow> Inl e
                   | Inr it \<Rightarrow> Decode_loop input (nat (int i + n)) (items @ [it]))))
      else Inr items)"
  by pat_completeness auto
termination
proof (relation "measures
     [\<lambda>x. case x of Inl s \<Rightarrow> cap s | Inr (s, i, items) \<Rightarrow> cap s - i,
      \<lambda>x. case x of Inl s \<Rightarrow> 0 | Inr (s, i, items) \<Rightarrow> 1]", goal_cases)
  case 1
  show ?case by simp
next
  case (2 input b)
  then have "0 < len input" by (auto simp: index_def split: if_splits)
  then show ?case by (auto simp: len_def cap_def)
next
  case (3 input i items n child)
  from reslice_cap[OF 3(3)] show ?case by simp
next
  case (4 input i items n child it)
  from child_len_pos[OF 4(2)] 4(1) show ?case
    by (auto simp: len_def cap_def)
qed

declare Decode.simps [simp del] Decode_loop.simps [simp del]

subsection \<open>PutUvarint followed by Uvarint\<close>

lemma byte_or_0x80_not_lt: "\<not> ((b::byte) OR 0x80) < 0x80"
proof
  assume "(b OR 0x80) < 0x80"
  then have "\<And>n. bit (b OR 0x80) n \<Longrightarrow> n < 7" by (rule byte_lt_0x80_bit)
  moreover have "bit (b OR (2 ^ 7::byte)) 7"
    by (simp add: bit_or_iff bit_exp_iff del: power_numeral)
  then have "bit (b OR (0x80::byte)) 7" by simp
  ultimately show False by fastforce
qed

lemma uvarint_step_bits0:
  "(ucast ((ucast (x::64 word) OR (2 ^ 7::byte)) AND mask 7) :: 64 word) = take_bit 7 x"
  by (rule bit_eqI) (auto simp: bit_simps simp del: power_numeral)

lemma uvarint_step_bits:
  "(ucast ((ucast (x::64 word) OR (0x80::byte)) AND 0x7f) :: 64 word) = take_bit 7 x"
  using uvarint_step_bits0[of x] by (simp add: mask_eq_exp_minus_1)

lemma split7: "take_bit 7 x OR push_bit 7 (drop_bit 7 x) = (x::64 word)"
proof (rule bit_eqI)
  fix n
  assume "possible_bit TYPE(64 word) n"
  show "bit (take_bit 7 x OR push_bit 7 (drop_bit 7 x)) n = bit x n"
    by (cases "n < 7") (auto simp: bit_simps dest: bit_imp_le_length)
qed

lemma join7:
  "((acc::64 word) OR push_bit s (take_bit 7 x)) OR push_bit (s + 7) (drop_bit 7 x) =
   acc OR push_bit s x"
proof -
  have "push_bit s x = push_bit s (take_bit 7 x OR push_bit 7 (drop_bit 7 x))"
    by (simp only: split7)
  also have "\<dots> = push_bit s (take_bit 7 x) OR push_bit (s + 7) (drop_bit 7 x)"
    by (simp add: push_bit_or push_bit_push_bit add.commute del: push_bit_take_bit)
  finally show ?thesis by (simp add: or.assoc)
qed

lemma ucast_byte_small:
  assumes "(x::64 word) < 0x80"
  shows "(ucast x :: byte) < 0x80" and "(ucast (ucast x :: byte) :: 64 word) = x"
proof -
  from assms have "x < 2 ^ 7" by simp
  then have "x AND mask 7 = x" by (rule less_mask_eq)
  then have tb: "take_bit 7 x = x" by (simp add: take_bit_eq_mask)
  have bits: "\<And>n. bit x n \<Longrightarrow> n < 7"
    using tb by (metis bit_take_bit_iff)
  show "(ucast (ucast x :: byte) :: 64 word) = x"
    by (rule bit_eqI) (auto simp: bit_simps dest: bits)
  have "\<not> bit (ucast x :: byte) 7"
    using bits[of 7] by (auto simp: bit_simps)
  show "(ucast x :: byte) < 0x80"
  proof (rule ccontr)
    assume "\<not> (ucast x :: byte) < 0x80"
    then have "unat (ucast x :: byte) \<ge> 128" by (simp add: word_less_nat_alt)
    moreover have "unat (ucast x :: byte) = take_bit 8 (unat x)"
      by (simp add: unsigned_ucast_eq)
    moreover from assms have "unat x < 128" by (simp add: word_less_nat_alt)
    then have "take_bit 8 (unat x) = unat x"
      by (simp add: take_bit_nat_eq_self_iff)
    ultimately show False using \<open>unat x < 128\<close> by simp
  qed
qed

lemma uvarint_loop_cont:
  "\<not> b < 0x80 \<Longrightarrow> i < 9 \<Longrightarrow>
   uvarint_loop (b # bs) acc s i =
   uvarint_loop bs (acc OR push_bit s (ucast (b AND 0x7f))) (s + 7) (i + 1)"
  by simp

lemma uvarint_loop_last:
  "b < 0x80 \<Longrightarrow> i < 9 \<Longrightarrow> uvarint_loop (b # bs) acc s i = acc OR push_bit s (ucast b)"
  by simp

lemma uvarint_loop_bytes:
  "i + length (uvarint_bytes x) \<le> 9 \<Longrightarrow>
   uvarint_loop (uvarint_bytes x @ rest) acc s i = acc OR push_bit s x"
proof (induction x arbitrary: acc s i rule: uvarint_bytes.induct)
  case (1 x)
  show ?case
  proof (cases "0x80 \<le> x")
    case True
    define b :: byte where "b = ucast x OR 0x80"
    from True have ub: "uvarint_bytes x = b # uvarint_bytes (drop_bit 7 x)"
      unfolding b_def by (subst uvarint_bytes.simps) simp
    from "1.prems" have len: "(i + 1) + length (uvarint_bytes (drop_bit 7 x)) \<le> 9" and i: "i < 9"
      unfolding ub by simp_all
    have nb: "\<not> b < 0x80" unfolding b_def by (rule byte_or_0x80_not_lt)
    have tb: "(ucast (b AND 0x7f) :: 64 word) = take_bit 7 x"
      unfolding b_def by (rule uvarint_step_bits)
    have "uvarint_loop (uvarint_bytes x @ rest) acc s i =
          uvarint_loop (b # (uvarint_bytes (drop_bit 7 x) @ rest)) acc s i"
      by (simp only: ub append_Cons)
    also have "\<dots> = uvarint_loop (uvarint_bytes (drop_bit 7 x) @ rest)
            (acc OR push_bit s (take_bit 7 x)) (s + 7) (i + 1)"
      by (simp only: uvarint_loop_cont[OF nb i] tb)
    also have "\<dots> = (acc OR push_bit s (take_bit 7 x)) OR push_bit (s + 7) (drop_bit 7 x)"
      using "1.IH"[OF True len] .
    also have "\<dots> = acc OR push_bit s x"
      by (rule join7)
    finally show ?thesis .
  next
    case False
    then have ub: "uvarint_bytes x = [ucast x]"
      by (subst uvarint_bytes.simps) simp
    from False have lt: "x < 0x80" by simp
    from "1.prems" have i: "i < 9" unfolding ub by simp
    have "uvarint_loop (uvarint_bytes x @ rest) acc s i = uvarint_loop (ucast x # rest) acc s i"
      by (simp only: ub append_Cons append_Nil)
    also have "\<dots> = acc OR push_bit s (ucast (ucast x :: byte))"
      by (rule uvarint_loop_last[OF ucast_byte_small(1)[OF lt] i])
    finally show ?thesis by (simp only: ucast_byte_small(2)[OF lt])
  qed
qed

lemma Uvarint_uvarint_bytes:
  "length (uvarint_bytes x) \<le> 9 \<Longrightarrow> Uvarint (uvarint_bytes x @ rest) = x"
  unfolding Uvarint_def using uvarint_loop_bytes[of 0 x rest 0 0] by simp

lemma uvarint_bytes_length_pos: "1 \<le> length (uvarint_bytes x)"
  by (subst uvarint_bytes.simps) simp

lemma uvarint_bytes_length:
  "unat x < 2 ^ (7 * k) \<Longrightarrow> 0 < k \<Longrightarrow> length (uvarint_bytes x) \<le> k"
proof (induction x arbitrary: k rule: uvarint_bytes.induct)
  case (1 x)
  show ?case
  proof (cases "0x80 \<le> x")
    case True
    then have ub: "uvarint_bytes x = (ucast x OR 0x80) # uvarint_bytes (drop_bit 7 x)"
      by (subst uvarint_bytes.simps) simp
    from True have x: "128 \<le> unat x" by (simp add: word_le_nat_alt)
    obtain k' where k: "k = Suc k'" using "1.prems"(2) by (cases k) auto
    have "0 < k'"
    proof (rule ccontr)
      assume "\<not> 0 < k'"
      with k "1.prems"(1) x show False by simp
    qed
    moreover have "unat (drop_bit 7 x) < 2 ^ (7 * k')"
    proof -
      have "unat (drop_bit 7 x) = unat x div 2 ^ 7"
        by (simp add: unat_drop_bit_eq drop_bit_eq_div unat_div)
      moreover have "unat x < 2 ^ 7 * 2 ^ (7 * k')"
        using "1.prems"(1) k by (simp add: power_add)
      ultimately show ?thesis
        by (simp add: less_mult_imp_div_less mult.commute)
    qed
    ultimately have "length (uvarint_bytes (drop_bit 7 x)) \<le> k'"
      using "1.IH"[OF True] by simp
    with ub k show ?thesis by simp
  next
    case False
    then have "uvarint_bytes x = [ucast x]"
      by (subst uvarint_bytes.simps) simp
    with "1.prems"(2) show ?thesis by simp
  qed
qed

subsection \<open>Round trip: strings\<close>

text \<open>
  \<open>wf_Item\<close>: exactly one of the two fields is set, at every node. \<open>enc_bound\<close>
  bounds the length of the encoding from above (nine header bytes at most per node).
\<close>

fun wf_Item :: "Item \<Rightarrow> bool" where
  "wf_Item (Item (Some d) None) = True"
| "wf_Item (Item None (Some xs)) = list_all wf_Item xs"
| "wf_Item (Item d l) = False"

fun enc_bound :: "Item \<Rightarrow> nat" where
  "enc_bound (Item (Some d) l) = 9 + length d"
| "enc_bound (Item None None) = 9"
| "enc_bound (Item None (Some xs)) = 9 + sum_list (map enc_bound xs)"

lemma byte_add_unat: "unat (t::byte) + n < 256 \<Longrightarrow> unat (t + of_nat n) = unat t + n"
  by (simp add: unat_word_ariths unat_of_nat)

lemma byte_of_nat_uint: "n < 256 \<Longrightarrow> uint (of_nat n :: byte) = int n"
  by (simp add: uint_nat unat_of_nat) 

lemma w64_of_nat_unat: "l < 2 ^ 56 \<Longrightarrow> unat (of_nat l :: 64 word) = l"
  by (simp add: unat_of_nat)

lemma w64_of_nat_sint: "l < 2 ^ 56 \<Longrightarrow> sint (of_nat l :: 64 word) = int l"
proof -
  assume l: "l < 2 ^ 56"
  have "(2::nat) ^ 56 \<le> 2 ^ 63" by simp
  with l have "l < 2 ^ 63" by (rule less_le_trans)
  then have "int l < 2 ^ 63" by (metis of_nat_less_iff of_nat_numeral of_nat_power)
  then have "signed_take_bit 63 (int l) = int l"
    by (intro signed_take_bit_int_eq_self) simp_all
  then show ?thesis by (simp add: signed_of_nat)
qed

lemma encodeLength_ok:
  assumes "l < 2 ^ 56"
  defines "vb \<equiv> uvarint_bytes (of_nat l)"
  shows "encodeLength t l = Inr ((t + of_nat (length vb)) # vb)"
    and "1 \<le> length vb" and "length vb \<le> 8"
proof -
  from assms(1) have "unat (of_nat l :: 64 word) < 2 ^ (7 * 8)"
    by (simp add: w64_of_nat_unat)
  then show l8: "length vb \<le> 8"
    unfolding vb_def by (rule uvarint_bytes_length) simp
  show "1 \<le> length vb" unfolding vb_def by (rule uvarint_bytes_length_pos)
  from l8 show "encodeLength t l = Inr ((t + of_nat (length vb)) # vb)"
    by (simp add: encodeLength_def PutUvarint_def vb_def)
qed

lemma reslice_elems:
  "0 \<le> lo \<Longrightarrow> lo \<le> hi \<Longrightarrow> hi \<le> int (cap s) \<Longrightarrow>
   reslice s lo hi = Inr \<lparr>elems = take (nat (hi - lo)) (drop (nat lo) (elems s @ spare s)),
                          spare = drop (nat hi) (elems s @ spare s)\<rparr>"
  by (simp add: reslice_def)

lemma reslice_window:
  "reslice \<lparr>elems = pre @ mid @ post, spare = sp\<rparr> (int (length pre)) (int (length pre) + int (length mid))
   = Inr \<lparr>elems = mid, spare = post @ sp\<rparr>"
  by (simp add: reslice_def cap_def)

lemma decodeLength_encoded:
  assumes l: "l < 2 ^ 56" and t: "unat t + 8 < 256"
  defines "vb \<equiv> uvarint_bytes (of_nat l)"
  shows "decodeLength t \<lparr>elems = (t + of_nat (length vb)) # vb @ rest, spare = sp\<rparr>
         = Inr (int (length vb) + int l)"
proof -
  have k1: "1 \<le> length vb" and k8: "length vb \<le> 8"
    using encodeLength_ok(2,3)[OF l] unfolding vb_def by simp_all
  let ?k = "length vb"
  let ?input = "\<lparr>elems = (t + of_nat ?k) # vb @ rest, spare = sp\<rparr>"
  have idx: "index ?input 0 = Inr (t + of_nat ?k)"
    by (simp add: index_def len_def)
  have n: "(t + of_nat ?k) - t = (of_nat ?k :: byte)" by simp
  have un: "uint (of_nat ?k :: byte) = int ?k"
    using k8 by (simp add: byte_of_nat_uint)
  have "(of_nat ?k + 1 :: byte) = of_nat (?k + 1)" by simp
  then have un1: "uint (of_nat ?k + 1 :: byte) = int ?k + 1"
    using k8 byte_of_nat_uint[of "?k + 1"] by (simp add: add.commute)
  have rs: "reslice ?input 1 (int ?k + 1) = Inr \<lparr>elems = vb, spare = rest @ sp\<rparr>"
    using reslice_window[of "[t + of_nat ?k]" vb rest sp] by (simp add: add.commute)
  have uv: "Uvarint vb = of_nat l"
    using Uvarint_uvarint_bytes[of "of_nat l" "[]"] k8 unfolding vb_def by simp
  show ?thesis
    unfolding decodeLength_def idx
    by (simp add: n un un1 rs uv w64_of_nat_sint[OF l] Let_def)
qed


definition decodes_to :: "bytes \<Rightarrow> Item \<Rightarrow> bool" where
  "decodes_to e T \<longleftrightarrow>
     e \<noteq> [] \<and> (\<forall>sp. Decode \<lparr>elems = e, spare = sp\<rparr> = Inr T)
     \<and> (\<forall>post sp. child_len \<lparr>elems = e @ post, spare = sp\<rparr> 0 = Inr (int (length e)))"

lemma reslice_whole:
  "reslice \<lparr>elems = xs, spare = sp\<rparr> 0 (int (length xs)) = Inr \<lparr>elems = xs, spare = sp\<rparr>"
  by (simp add: reslice_def cap_def)

lemma byte_sub_uint: "unat (c::byte) \<le> unat b \<Longrightarrow> uint (b - c) = int (unat b - unat c)"
proof -
  assume "unat c \<le> unat b"
  then have "c \<le> b" by (simp add: word_le_nat_alt)
  then have "unat (b - c) = unat b - unat c" by (rule unat_sub)
  then show ?thesis by (simp only: uint_nat)
qed

lemma str1_decodes:
  assumes "x \<le> str1H"
  shows "decodes_to [x] (Item (Some [x]) None)"
  using assms
  by (simp add: decodes_to_def Decode.simps index_def len_def child_len_def)

lemma str55_decodes:
  assumes n: "length d \<le> 55"
  shows "decodes_to ((str55L + of_nat (length d)) # d) (Item (Some d) None)"
proof -
  define b where "b = str55L + (of_nat (length d) :: byte)"
  have ub: "unat b = 128 + length d"
    unfolding b_def using n byte_add_unat[of str55L "length d"] by (simp add: str55L_def)
  have c1: "\<not> b \<le> str1H" and c2: "b \<le> str55H"
    using ub n by (simp_all add: word_le_nat_alt str1H_def str55H_def)
  have u1: "uint (b - str1H) = int (length d) + 1"
    using byte_sub_uint[of str1H b] ub by (simp add: str1H_def)
  have u2: "uint (b - str55L) = int (length d)"
    using byte_sub_uint[of str55L b] ub by (simp add: str55L_def)
  have rs: "\<And>sp. reslice \<lparr>elems = b # d, spare = sp\<rparr> 1 (int (length d) + 1)
      = Inr \<lparr>elems = d, spare = sp\<rparr>"
    using reslice_window[of "[b]" d "[]"] by (simp add: add.commute)
  have "\<And>sp. Decode \<lparr>elems = b # d, spare = sp\<rparr> = Inr (Item (Some d) None)"
    by (simp add: Decode.simps index_def len_def c1 c2 u1 rs)
  moreover have "\<And>post sp. child_len \<lparr>elems = (b # d) @ post, spare = sp\<rparr> 0
      = Inr (int (length (b # d)))"
    by (simp add: child_len_def index_def len_def c1 c2 u2)
  ultimately show ?thesis
    unfolding decodes_to_def b_def[symmetric] by simp
qed

lemma strN_decodes:
  assumes n: "length d < 2 ^ 56"
  defines "vb \<equiv> uvarint_bytes (of_nat (length d))"
  shows "decodes_to ((str55H + of_nat (length vb)) # vb @ d) (Item (Some d) None)"
proof -
  have k1: "1 \<le> length vb" and k8: "length vb \<le> 8"
    using encodeLength_ok(2,3)[OF n] unfolding vb_def by simp_all
  define b where "b = str55H + (of_nat (length vb) :: byte)"
  have ub: "unat b = 183 + length vb"
    unfolding b_def using k8 byte_add_unat[of str55H "length vb"] by (simp add: str55H_def)
  have c1: "\<not> b \<le> str1H" and c2: "\<not> b \<le> str55H" and c3: "b \<le> strNH"
    using ub k1 k8 by (auto simp: word_le_nat_alt str1H_def str55H_def strNH_def)
  have "uint (b - str55H) = int (length vb)"
    using byte_sub_uint[of str55H b] ub by (simp add: str55H_def)
  moreover have "1 + (b - str55H) = of_nat (Suc (length vb))"
    unfolding b_def by simp
  then have "uint (1 + (b - str55H)) = int (Suc (length vb))"
    using k8 byte_of_nat_uint[of "Suc (length vb)"] by simp
  ultimately have u1: "uint (1 + (b - str55H)) = 1 + int (length vb)" by simp
  have dl: "\<And>rest sp. decodeLength str55H \<lparr>elems = b # vb @ rest, spare = sp\<rparr>
      = Inr (int (length vb) + int (length d))"
    unfolding b_def vb_def using decodeLength_encoded[OF n, where t=str55H]
    by (simp add: str55H_def)
  have rs: "\<And>sp. reslice \<lparr>elems = b # vb @ d, spare = sp\<rparr> (1 + int (length vb))
       (1 + (int (length vb) + int (length d))) = Inr \<lparr>elems = d, spare = sp\<rparr>"
    using reslice_window[of "b # vb" d "[]"] by (simp add: add.commute add.left_commute)
  have "\<And>sp. Decode \<lparr>elems = b # vb @ d, spare = sp\<rparr> = Inr (Item (Some d) None)"
    by (simp add: Decode.simps index_def len_def c1 c2 c3 u1 dl rs)
  moreover have "child_len \<lparr>elems = (b # vb @ d) @ post, spare = sp\<rparr> 0
      = Inr (int (length (b # vb @ d)))" for post sp
  proof -
    let ?input = "\<lparr>elems = b # vb @ d @ post, spare = sp\<rparr>"
    have "index ?input 0 = Inr b" by (simp add: index_def len_def)
    moreover have "reslice ?input (int 0) (int (len ?input)) = Inr ?input"
      using reslice_whole[of "b # vb @ d @ post" sp] by (simp add: len_def)
    ultimately have "child_len ?input 0 = Inr (1 + (int (length vb) + int (length d)))"
      unfolding child_len_def by (simp add: c1 c2 c3 dl)
    then show ?thesis by simp
  qed
  ultimately show ?thesis
    unfolding decodes_to_def b_def[symmetric] by simp
qed

lemma encode_string_decodes:
  assumes "length d < 2 ^ 56"
  shows "\<exists>e. encode_string d = Inr e \<and> length e \<le> 9 + length d
             \<and> decodes_to e (Item (Some d) None)"
proof (cases "length d = 1 \<and> hd d \<le> str1H")
  case True
  then obtain x where "d = [x]" "x \<le> str1H"
    by (cases d) auto
  then show ?thesis
    using str1_decodes[of x] by (simp add: encode_string_def)
next
  case c1: False
  show ?thesis
  proof (cases "length d \<le> 55")
    case True
    with c1 show ?thesis
      using str55_decodes[OF True] by (auto simp: encode_string_def)
  next
    case False
    with c1 show ?thesis
      using strN_decodes[OF assms] encodeLength_ok(1)[OF assms, of str55H] encodeLength_ok(3)[OF assms]
      by (auto simp: encode_string_def)
  qed
qed

subsection \<open>Round trip: lists\<close>

lemma child_len_shift:
  "child_len \<lparr>elems = pre @ xs, spare = sp\<rparr> (length pre) = child_len \<lparr>elems = xs, spare = sp\<rparr> 0"
proof (cases xs)
  case Nil
  then show ?thesis by (simp add: child_len_def index_def len_def)
next
  case (Cons b bs)
  have r1: "reslice \<lparr>elems = pre @ xs, spare = sp\<rparr> (int (length pre))
              (int (len \<lparr>elems = pre @ xs, spare = sp\<rparr>)) = Inr \<lparr>elems = xs, spare = sp\<rparr>"
    using reslice_window[of pre xs "[]" sp] by (simp add: len_def)
  have r2: "reslice \<lparr>elems = xs, spare = sp\<rparr> (int 0)
              (int (len \<lparr>elems = xs, spare = sp\<rparr>)) = Inr \<lparr>elems = xs, spare = sp\<rparr>"
    using reslice_whole[of xs sp] by (simp add: len_def)
  have i1: "index \<lparr>elems = pre @ xs, spare = sp\<rparr> (length pre) = Inr b"
    and i2: "index \<lparr>elems = xs, spare = sp\<rparr> 0 = Inr b"
    using Cons by (simp_all add: index_def len_def)
  show ?thesis
    unfolding child_len_def r1 r2 i1 i2 by simp
qed

lemma Encode_loop_concat:
  "list_all2 (\<lambda>x e. Encode x = Inr e) xs es \<Longrightarrow> Encode_loop xs out = Inr (out @ concat es)"
  by (induction xs es arbitrary: out rule: list_all2_induct) simp_all

lemma Decode_loop_children:
  "list_all2 (\<lambda>x e. decodes_to e x) xs es \<Longrightarrow>
   Decode_loop \<lparr>elems = pre @ concat es, spare = sp\<rparr> (length pre) acc = Inr (acc @ xs)"
proof (induction xs es arbitrary: pre acc rule: list_all2_induct)
  case Nil
  show ?case by (subst Decode_loop.simps) (simp add: len_def)
next
  case (Cons x xs e es)
  let ?input = "\<lparr>elems = pre @ concat (e # es), spare = sp\<rparr>"
  from Cons.hyps(1) have ne: "e \<noteq> []"
    and dec: "Decode \<lparr>elems = e, spare = concat es @ sp\<rparr> = Inr x"
    and cl: "child_len \<lparr>elems = e @ concat es, spare = sp\<rparr> 0 = Inr (int (length e))"
    by (simp_all add: decodes_to_def)
  have lt: "length pre < len ?input" using ne by (simp add: len_def)
  have c: "child_len ?input (length pre) = Inr (int (length e))"
    using child_len_shift[of pre "e @ concat es" sp] cl by simp
  have r: "reslice ?input (int (length pre)) (int (length pre) + int (length e))
           = Inr \<lparr>elems = e, spare = concat es @ sp\<rparr>"
    using reslice_window[of pre e "concat es" sp] by simp
  have nx: "nat (int (length pre) + int (length e)) = length (pre @ e)" by simp
  have "Decode_loop ?input (length pre) acc
        = Decode_loop ?input (length (pre @ e)) (acc @ [x])"
    by (subst Decode_loop.simps) (simp only: lt c r dec nx if_True sum.case)
  also have "\<dots> = Inr ((acc @ [x]) @ xs)"
    using Cons.IH[of "pre @ e" "acc @ [x]"] by simp
  finally show ?case by simp
qed

lemma list55_decodes:
  assumes n: "length out \<le> 55"
    and loop: "\<And>sp. Decode_loop \<lparr>elems = (list55L + of_nat (length out)) # out, spare = sp\<rparr> 1 []
                 = Inr xs"
  shows "decodes_to ((list55L + of_nat (length out)) # out) (Item None (Some xs))"
proof -
  define b where "b = list55L + (of_nat (length out) :: byte)"
  have ub: "unat b = 192 + length out"
    unfolding b_def using n byte_add_unat[of list55L "length out"] by (simp add: list55L_def)
  have c1: "\<not> b \<le> str1H" and c2: "\<not> b \<le> str55H" and c3: "\<not> b \<le> strNH"
    and c4: "b \<le> list55H" and c5: "\<not> listNL \<le> b"
    using ub n
    by (simp_all add: word_le_nat_alt str1H_def str55H_def strNH_def list55H_def listNL_def)
  have u2: "uint (b - list55L) = int (length out)"
    using byte_sub_uint[of list55L b] ub by (simp add: list55L_def)
  have "\<And>sp. Decode \<lparr>elems = b # out, spare = sp\<rparr> = Inr (Item None (Some xs))"
    using loop unfolding b_def[symmetric]
    by (simp add: Decode.simps index_def len_def c1 c2 c3 c5)
  moreover have "\<And>post sp. child_len \<lparr>elems = (b # out) @ post, spare = sp\<rparr> 0
      = Inr (int (length (b # out)))"
    by (simp add: child_len_def index_def len_def c1 c2 c3 c4 u2)
  ultimately show ?thesis
    unfolding decodes_to_def b_def[symmetric] by simp
qed

lemma listN_decodes:
  assumes n: "length out < 2 ^ 56"
  defines "vb \<equiv> uvarint_bytes (of_nat (length out))"
  assumes loop: "\<And>sp. Decode_loop \<lparr>elems = (list55H + of_nat (length vb)) # vb @ out, spare = sp\<rparr>
                   (1 + length vb) [] = Inr xs"
  shows "decodes_to ((list55H + of_nat (length vb)) # vb @ out) (Item None (Some xs))"
proof -
  have k1: "1 \<le> length vb" and k8: "length vb \<le> 8"
    using encodeLength_ok(2,3)[OF n] unfolding vb_def by simp_all
  define b where "b = list55H + (of_nat (length vb) :: byte)"
  have ub: "unat b = 247 + length vb"
    unfolding b_def using k8 byte_add_unat[of list55H "length vb"] by (simp add: list55H_def)
  have c1: "\<not> b \<le> str1H" and c2: "\<not> b \<le> str55H" and c3: "\<not> b \<le> strNH"
    and c4: "\<not> b \<le> list55H" and c5: "listNL \<le> b"
    using ub k1 k8
    by (auto simp: word_le_nat_alt str1H_def str55H_def strNH_def list55H_def listNL_def)
  have "list55H \<le> b"
    using ub by (simp add: word_le_nat_alt list55H_def)
  then have "unat (b - list55H) = unat b - unat list55H" by (rule unat_sub)
  with ub have u1: "unat (b - list55H) = length vb"
    by (simp add: list55H_def)
  have dl: "\<And>rest sp. decodeLength list55H \<lparr>elems = b # vb @ rest, spare = sp\<rparr>
      = Inr (int (length vb) + int (length out))"
    unfolding b_def vb_def using decodeLength_encoded[OF n, where t=list55H]
    by (simp add: list55H_def)
  have "\<And>sp. Decode \<lparr>elems = b # vb @ out, spare = sp\<rparr> = Inr (Item None (Some xs))"
    using loop unfolding b_def[symmetric]
    by (simp add: Decode.simps index_def len_def c1 c2 c3 c5 u1)
  moreover have "child_len \<lparr>elems = (b # vb @ out) @ post, spare = sp\<rparr> 0
      = Inr (int (length (b # vb @ out)))" for post sp
  proof -
    let ?input = "\<lparr>elems = b # vb @ out @ post, spare = sp\<rparr>"
    have "index ?input 0 = Inr b" by (simp add: index_def len_def)
    moreover have "reslice ?input (int 0) (int (len ?input)) = Inr ?input"
      using reslice_whole[of "b # vb @ out @ post" sp] by (simp add: len_def)
    ultimately have "child_len ?input 0 = Inr (1 + (int (length vb) + int (length out)))"
      unfolding child_len_def by (simp add: c1 c2 c3 c4 dl)
    then show ?thesis by simp
  qed
  ultimately show ?thesis
    unfolding decodes_to_def b_def[symmetric] by simp
qed

lemma encode_list_header_decodes:
  assumes n: "length (concat es) < 2 ^ 56"
    and ch: "list_all2 (\<lambda>x e. decodes_to e x) xs es"
  shows "\<exists>e. encode_list_header (concat es) = Inr e \<and> length e \<le> 9 + length (concat es)
             \<and> decodes_to e (Item None (Some xs))"
proof (cases "length (concat es) \<le> 55")
  case True
  have "\<And>sp. Decode_loop \<lparr>elems = (list55L + of_nat (length (concat es))) # concat es, spare = sp\<rparr>
          1 [] = Inr xs"
    using Decode_loop_children[OF ch, of "[list55L + of_nat (length (concat es))]" _ "[]"]
    by simp
  from list55_decodes[OF True this] True show ?thesis
    by (simp add: encode_list_header_def)
next
  case False
  define vb where "vb = uvarint_bytes (of_nat (length (concat es)))"
  have "\<And>sp. Decode_loop \<lparr>elems = (list55H + of_nat (length vb)) # vb @ concat es, spare = sp\<rparr>
          (1 + length vb) [] = Inr xs"
    using Decode_loop_children[OF ch, of "(list55H + of_nat (length vb)) # vb" _ "[]"]
    by simp
  from listN_decodes[OF n this[unfolded vb_def]] False
    encodeLength_ok(1)[OF n, of list55H] encodeLength_ok(3)[OF n]
  show ?thesis
    by (simp add: encode_list_header_def)
qed

lemma children_encodings:
  assumes "\<And>x. x \<in> set xs \<Longrightarrow> \<exists>e. Encode x = Inr e \<and> length e \<le> enc_bound x \<and> decodes_to e x"
  shows "\<exists>es. list_all2 (\<lambda>x e. Encode x = Inr e) xs es
            \<and> list_all2 (\<lambda>x e. decodes_to e x) xs es
            \<and> length (concat es) \<le> sum_list (map enc_bound xs)"
  using assms
proof (induction xs)
  case Nil
  show ?case by simp
next
  case (Cons x xs)
  from Cons.prems[of x] obtain e where
    e: "Encode x = Inr e" "length e \<le> enc_bound x" "decodes_to e x" by auto
  from Cons.IH Cons.prems obtain es where
    es: "list_all2 (\<lambda>x e. Encode x = Inr e) xs es"
      "list_all2 (\<lambda>x e. decodes_to e x) xs es"
      "length (concat es) \<le> sum_list (map enc_bound xs)" by auto
  from e es show ?case
    by (intro exI[of _ "e # es"]) simp
qed

lemma enc_bound_child: "x \<in> set xs \<Longrightarrow> enc_bound x \<le> sum_list (map enc_bound xs)"
  by (induction xs) auto

lemma Encode_decodes:
  "wf_Item T \<Longrightarrow> enc_bound T < 2 ^ 56 \<Longrightarrow>
   \<exists>e. Encode T = Inr e \<and> length e \<le> enc_bound T \<and> decodes_to e T"
proof (induction T)
  case (Item d l)
  show ?case
  proof (cases d)
    case (Some bs)
    with Item.prems(1) have l: "l = None" by (cases l) simp_all
    from Item.prems(2) Some have "length bs < 2 ^ 56" by simp
    from encode_string_decodes[OF this] Some l show ?thesis by simp
  next
    case None
    with Item.prems(1) obtain xs where l: "l = Some xs" and wf: "list_all wf_Item xs"
      by (cases l) simp_all
    from Item.prems(2) None l have b: "sum_list (map enc_bound xs) < 2 ^ 56" by simp
    have "\<exists>e. Encode x = Inr e \<and> length e \<le> enc_bound x \<and> decodes_to e x"
      if "x \<in> set xs" for x
    proof -
      from wf that have "wf_Item x" by (simp add: list_all_iff)
      moreover from enc_bound_child[OF that] b have "enc_bound x < 2 ^ 56" by simp
      ultimately show ?thesis using Item.IH[of xs x] l that by simp
    qed
    from children_encodings[OF this] obtain es where
      es: "list_all2 (\<lambda>x e. Encode x = Inr e) xs es"
        "list_all2 (\<lambda>x e. decodes_to e x) xs es"
        "length (concat es) \<le> sum_list (map enc_bound xs)" by blast
    from es(3) b have "length (concat es) < 2 ^ 56" by simp
    from encode_list_header_decodes[OF this es(2)] obtain e where
      e: "encode_list_header (concat es) = Inr e" "length e \<le> 9 + length (concat es)"
        "decodes_to e (Item None (Some xs))" by blast
    from Encode_loop_concat[OF es(1), of "[]"] e es(3) None l show ?thesis by simp
  qed
qed

section \<open>Package discv4: the Kademlia table (kademlia.go)\<close>

text \<open>
  \<open>enr.ENR\<close> belongs to a package outside the sources. The table reads it through
  \<open>NodeAddrHex\<close> and \<open>enr.LogDistance\<close> only, so a node record is a value of any type
  \<open>'enr\<close> and the two functions are parameters. Times are nanosecond counts.
\<close>

type_synonym time = int

definition maxBucketSize :: nat where "maxBucketSize = 16"
definition addrByteSize :: int where "addrByteSize = 256"
definition bucketsCount :: nat where "bucketsCount = 20"
definition minLogDistance :: int where "minLogDistance = addrByteSize + 1 - int bucketsCount"

record 'enr bucketEntry =
  node :: 'enr
  lastSeen :: time

text \<open>
  \<open>lru\<close> is the \<open>container/list\<close> list from front to back. A list element has an
  identity of its own, a number; \<open>entriesMap\<close> maps a key to the identity of an element,
  and \<open>None\<close> is the nil map. \<open>fresh\<close> is the identity that the next \<open>PushFront\<close>
  allocates.
\<close>

record 'enr kBucket =
  lru :: "(nat \<times> 'enr bucketEntry) list"
  entriesMap :: "(string \<rightharpoonup> nat) option"
  fresh :: nat

record 'enr kademliaTable =
  selfNode :: 'enr
  buckets :: "'enr kBucket list"

definition nodes :: "'enr kBucket \<Rightarrow> 'enr list" where
  "nodes bucket = map (\<lambda>el. node (snd el)) (lru bucket)"

text \<open>Reading a nil map finds nothing; writing one panics.\<close>

definition map_get :: "(string \<rightharpoonup> nat) option \<Rightarrow> string \<Rightarrow> nat option" where
  "map_get m k = (case m of None \<Rightarrow> None | Some f \<Rightarrow> f k)"

definition set_Value :: "nat \<Rightarrow> 'enr bucketEntry \<Rightarrow> (nat \<times> 'enr bucketEntry) list
    \<Rightarrow> (nat \<times> 'enr bucketEntry) list" where
  "set_Value el v l = map (\<lambda>p. if fst p = el then (el, v) else p) l"

definition MoveToFront :: "nat \<Rightarrow> (nat \<times> 'enr bucketEntry) list \<Rightarrow> (nat \<times> 'enr bucketEntry) list" where
  "MoveToFront el l = filter (\<lambda>p. fst p = el) l @ filter (\<lambda>p. fst p \<noteq> el) l"

definition store :: "('enr \<Rightarrow> string) \<Rightarrow> time \<Rightarrow> 'enr \<Rightarrow> 'enr kBucket \<Rightarrow> panic + 'enr kBucket" where
  "store NodeAddrHex now n bucket =
     (case map_get (entriesMap bucket) (NodeAddrHex n) of
        Some el \<Rightarrow>
          Inr (bucket\<lparr>lru := MoveToFront el (set_Value el \<lparr>node = n, lastSeen = now\<rparr> (lru bucket))\<rparr>)
      | None \<Rightarrow>
          (let newEntry = fresh bucket;
               pushed = (newEntry, \<lparr>node = n, lastSeen = now\<rparr>) # lru bucket
           in case entriesMap bucket of
                None \<Rightarrow> Inl NilMapAssign
              | Some m \<Rightarrow>
                  (let m1 = m(NodeAddrHex n \<mapsto> newEntry) in
                   if maxBucketSize < length pushed then
                     Inr \<lparr>lru = butlast pushed,
                          entriesMap = Some (m1(NodeAddrHex (node (snd (last pushed))) := None)),
                          fresh = Suc newEntry\<rparr>
                   else Inr \<lparr>lru = pushed, entriesMap = Some m1, fresh = Suc newEntry\<rparr>)))"

text \<open>
  \<open>newKademliaTable\<close> gives every bucket a list (\<open>list.New()\<close>) and leaves
  \<open>entriesMap\<close> as the zero value of its type, the nil map.
\<close>

definition newKademliaTable :: "'enr \<Rightarrow> 'enr kademliaTable" where
  "newKademliaTable self =
     \<lparr>selfNode = self,
      buckets = replicate bucketsCount \<lparr>lru = [], entriesMap = None, fresh = 0\<rparr>\<rparr>"

definition Insert :: "('enr \<Rightarrow> 'enr \<Rightarrow> int) \<Rightarrow> ('enr \<Rightarrow> string) \<Rightarrow> time \<Rightarrow> 'enr
    \<Rightarrow> 'enr kademliaTable \<Rightarrow> panic + 'enr kademliaTable" where
  "Insert LogDistance NodeAddrHex now n kt =
     (let distance = LogDistance (selfNode kt) n;
          distance = (if distance < minLogDistance then minLogDistance else distance);
          i = distance - minLogDistance
      in if i < 0 \<or> int (length (buckets kt)) \<le> i then Inl IndexOutOfRange
         else (case store NodeAddrHex now n (buckets kt ! nat i) of
                 Inl e \<Rightarrow> Inl e
               | Inr b \<Rightarrow> Inr (kt\<lparr>buckets := (buckets kt)[nat i := b]\<rparr>)))"

subsection \<open>FindClosest\<close>

text \<open>
  The slice \<open>s.nodes\<close>: its elements, all non-nil pointers, and its capacity. The slots
  of the backing array past the length are nil: the array only ever comes from
  \<open>append\<close>. How far \<open>append\<close> grows a full array is left to the Go implementation
  (\<open>grow\<close>, given the old capacity and the length needed); appending nothing returns the
  slice as it is.
\<close>

record 'enr enr_slice =
  ptrs :: "'enr list"
  capacity :: nat

definition append_nodes :: "(nat \<Rightarrow> nat \<Rightarrow> nat) \<Rightarrow> 'enr enr_slice \<Rightarrow> 'enr list \<Rightarrow> 'enr enr_slice" where
  "append_nodes grow s xs =
     (let need = length (ptrs s) + length xs
      in if need \<le> capacity s then s\<lparr>ptrs := ptrs s @ xs\<rparr>
         else \<lparr>ptrs = ptrs s @ xs, capacity = max need (grow (capacity s) need)\<rparr>)"

text \<open>\<open>s.nodes[:count]\<close> with \<open>k\<close> for \<open>count\<close>, checked against the capacity; \<open>None\<close> is a nil pointer.\<close>

definition slice_to :: "'enr enr_slice \<Rightarrow> int \<Rightarrow> panic + 'enr option list" where
  "slice_to s k =
     (if 0 \<le> k \<and> k \<le> int (capacity s)
      then Inr (take (nat k) (map Some (ptrs s) @ replicate (capacity s - length (ptrs s)) None))
      else Inl SliceBounds)"

text \<open>
  \<open>sort.Sort\<close> is the standard library's; \<open>srt\<close> stands for it, given the key that
  \<open>Less\<close> compares. Its documentation promises an ascending rearrangement and no
  stability.
\<close>

definition sort_Sort_contract :: "(('enr \<Rightarrow> int) \<Rightarrow> 'enr list \<Rightarrow> 'enr list) \<Rightarrow> bool" where
  "sort_Sort_contract srt \<longleftrightarrow>
     (\<forall>key xs. mset (srt key xs) = mset xs \<and> sorted (map key (srt key xs)))"

definition gather :: "(nat \<Rightarrow> nat \<Rightarrow> nat) \<Rightarrow> 'enr kBucket list \<Rightarrow> 'enr enr_slice" where
  "gather grow bs = foldl (\<lambda>s b. append_nodes grow s (nodes b)) \<lparr>ptrs = [], capacity = 0\<rparr> bs"

definition FindClosest :: "(('enr \<Rightarrow> int) \<Rightarrow> 'enr list \<Rightarrow> 'enr list) \<Rightarrow> (nat \<Rightarrow> nat \<Rightarrow> nat)
    \<Rightarrow> ('enr \<Rightarrow> 'enr \<Rightarrow> int) \<Rightarrow> 'enr kademliaTable \<Rightarrow> 'enr \<Rightarrow> int \<Rightarrow> panic + 'enr option list" where
  "FindClosest srt grow LogDistance kt target k =
     (let s = gather grow (buckets kt);
          sorted_nodes = s\<lparr>ptrs := srt (\<lambda>n. LogDistance n target) (ptrs s)\<rparr>
      in slice_to sorted_nodes k)"

text \<open>All entries of the table, in the order of the scan: bucket by bucket, front to back.\<close>

definition entries :: "'enr kademliaTable \<Rightarrow> 'enr list" where
  "entries kt = concat (map nodes (buckets kt))"

subsection \<open>What FindClosest returns within the table size\<close>

lemma append_nodes_ptrs: "ptrs (append_nodes grow s xs) = ptrs s @ xs"
  by (simp add: append_nodes_def Let_def)

lemma append_nodes_capacity:
  "length (ptrs s) \<le> capacity s \<Longrightarrow>
   length (ptrs (append_nodes grow s xs)) \<le> capacity (append_nodes grow s xs)"
  by (simp add: append_nodes_def Let_def)

lemma foldl_append_nodes:
  "ptrs (foldl (\<lambda>s b. append_nodes grow s (nodes b)) s bs) = ptrs s @ concat (map nodes bs)"
  by (induction bs arbitrary: s) (simp_all add: append_nodes_ptrs)

lemma foldl_append_nodes_capacity:
  "length (ptrs s) \<le> capacity s \<Longrightarrow>
   length (ptrs (foldl (\<lambda>s b. append_nodes grow s (nodes b)) s bs))
     \<le> capacity (foldl (\<lambda>s b. append_nodes grow s (nodes b)) s bs)"
proof (induction bs arbitrary: s)
  case Nil
  then show ?case by simp
next
  case (Cons b bs)
  from Cons.IH[OF append_nodes_capacity[OF Cons.prems]] show ?case by simp
qed

lemma gather_ptrs: "ptrs (gather grow (buckets kt)) = entries kt"
  by (simp add: gather_def entries_def foldl_append_nodes)

lemma gather_capacity: "length (entries kt) \<le> capacity (gather grow (buckets kt))"
  using foldl_append_nodes_capacity[of "\<lparr>ptrs = [], capacity = 0\<rparr>" grow "buckets kt"]
  by (simp add: gather_def entries_def foldl_append_nodes)

lemma sorted_take_rest:
  assumes "sorted (map f xs)" and "y \<in> set (take n xs)" and "x \<in> set (drop n xs)"
  shows "f y \<le> f x"
proof -
  have "xs = take n xs @ drop n xs" by simp
  with assms(1) have "sorted (map f (take n xs) @ map f (drop n xs))"
    by (metis map_append)
  with assms(2,3) show ?thesis
    by (auto simp: sorted_append)
qed

lemma sort_key_contract: "sort_Sort_contract sort_key"
  by (simp add: sort_Sort_contract_def)

lemma FindClosest_within_total0:
  fixes LogDistance :: "'enr \<Rightarrow> 'enr \<Rightarrow> int" and target :: 'enr and kt :: "'enr kademliaTable"
    and k :: int and srt
  assumes c: "sort_Sort_contract srt" and k0: "0 \<le> k" and k: "k \<le> int (length (entries kt))"
  defines "dist \<equiv> (\<lambda>n. LogDistance n target)"
  defines "r \<equiv> take (nat k) (srt dist (entries kt))"
  shows "FindClosest srt grow LogDistance kt target k = Inr (map Some r)"
    and "length r = nat k"
    and "sorted (map dist r)"
    and "mset r \<subseteq># mset (entries kt)"
    and "distinct (entries kt) \<longrightarrow> distinct r"
    and "\<forall>y \<in> set r. \<forall>x \<in> set (drop (nat k) (srt dist (entries kt))). dist y \<le> dist x"
proof -
  let ?s = "srt dist (entries kt)"
  from c have ms: "mset ?s = mset (entries kt)" and so: "sorted (map dist ?s)"
    by (simp_all add: sort_Sort_contract_def)
  from ms have len: "length ?s = length (entries kt)" by (rule mset_eq_length)
  with k k0 show "length r = nat k" unfolding r_def by simp
  show "sorted (map dist r)"
    unfolding r_def using so by (simp add: take_map[symmetric] sorted_wrt_take)
  have "mset r \<subseteq># mset ?s"
    unfolding r_def by (metis append_take_drop_id mset_append mset_subset_eq_add_left)
  with ms show "mset r \<subseteq># mset (entries kt)" by simp
  show "distinct (entries kt) \<longrightarrow> distinct r"
  proof
    assume "distinct (entries kt)"
    with ms have "distinct ?s" by (metis mset_eq_imp_distinct_iff)
    then show "distinct r" unfolding r_def by simp
  qed
  show "\<forall>y \<in> set r. \<forall>x \<in> set (drop (nat k) ?s). dist y \<le> dist x"
    unfolding r_def using sorted_take_rest[OF so] by blast
  have cap: "k \<le> int (capacity (gather grow (buckets kt)))"
    using k gather_capacity[of kt grow] by simp
  have "take (nat k) (map Some ?s @ replicate (capacity (gather grow (buckets kt)) - length ?s) None)
        = map Some r"
    unfolding r_def using k k0 len by (simp add: take_map)
  with cap k0 show "FindClosest srt grow LogDistance kt target k = Inr (map Some r)"
    by (simp add: FindClosest_def slice_to_def Let_def gather_ptrs dist_def)
qed

text \<open>
  With a count \<open>k\<close> from 0 to the number of entries, and whatever rearrangement
  \<open>sort.Sort\<close> produces within its contract, \<open>FindClosest\<close> returns exactly \<open>k\<close>
  non-nil entries of the table, in ascending log-distance from the target, none of them
  farther than an entry left out, and distinct when the entries of the table are. The
  example after it is a table of twenty buckets with two entries.
\<close>

lemma FindClosest_within_total:
  fixes LogDistance :: "'enr \<Rightarrow> 'enr \<Rightarrow> int" and kt :: "'enr kademliaTable"
  assumes "sort_Sort_contract srt" and "0 \<le> k" and "k \<le> int (length (entries kt))"
  shows "\<exists>r. FindClosest srt grow LogDistance kt target k = Inr (map Some r)
           \<and> length r = nat k
           \<and> sorted (map (\<lambda>n. LogDistance n target) r)
           \<and> mset r \<subseteq># mset (entries kt)
           \<and> (distinct (entries kt) \<longrightarrow> distinct r)
           \<and> (\<forall>y \<in> set r. \<forall>x \<in># mset (entries kt) - mset r.
                 LogDistance y target \<le> LogDistance x target)"
proof -
  let ?dist = "\<lambda>n. LogDistance n target"
  let ?s = "srt ?dist (entries kt)"
  let ?r = "take (nat k) ?s"
  from assms(1) have "mset ?s = mset (entries kt)"
    by (simp add: sort_Sort_contract_def)
  moreover have "mset ?s = mset ?r + mset (drop (nat k) ?s)"
    by (metis append_take_drop_id mset_append)
  ultimately have "mset (entries kt) = mset ?r + mset (drop (nat k) ?s)"
    by simp
  then have rest: "mset (entries kt) - mset ?r = mset (drop (nat k) ?s)"
    by (simp only: add_diff_cancel_left')
  note f = FindClosest_within_total0[OF assms]
  show ?thesis
  proof (intro exI[of _ ?r] conjI)
    show "FindClosest srt grow LogDistance kt target k = Inr (map Some ?r)" by (rule f(1))
    show "length ?r = nat k" by (rule f(2))
    show "sorted (map ?dist ?r)" by (rule f(3))
    show "mset ?r \<subseteq># mset (entries kt)" by (rule f(4))
    show "distinct (entries kt) \<longrightarrow> distinct ?r" by (rule f(5))
    show "\<forall>y \<in> set ?r. \<forall>x \<in># mset (entries kt) - mset ?r. ?dist y \<le> ?dist x"
      unfolding rest using f(6)[of LogDistance target] by simp
  qed
qed

lemma FindClosest_within_total_example:
  "(let idle = \<lparr>lru = [], entriesMap = Some Map.empty, fresh = 0\<rparr>;
        busy = \<lparr>lru = [(1, \<lparr>node = 5::nat, lastSeen = 20\<rparr>), (0, \<lparr>node = 3, lastSeen = 10\<rparr>)],
                 entriesMap = Some [''05'' \<mapsto> 1, ''03'' \<mapsto> 0], fresh = 2\<rparr>;
        kt = \<lparr>selfNode = 0::nat, buckets = replicate 19 idle @ [busy]\<rparr>
    in sort_Sort_contract (sort_key :: (nat \<Rightarrow> int) \<Rightarrow> nat list \<Rightarrow> nat list)
       \<and> (0::int) \<le> 1
       \<and> 1 \<le> int (length (entries kt))
       \<and> FindClosest sort_key (\<lambda>c n. 2 * n) (\<lambda>a b. int a) kt 0 1 = Inr [Some 3])"
proof -
  let ?idle = "\<lparr>lru = [], entriesMap = Some Map.empty, fresh = 0\<rparr> :: nat kBucket"
  let ?busy = "\<lparr>lru = [(1, \<lparr>node = 5::nat, lastSeen = 20\<rparr>), (0, \<lparr>node = 3, lastSeen = 10\<rparr>)],
                 entriesMap = Some [''05'' \<mapsto> 1, ''03'' \<mapsto> 0], fresh = 2\<rparr>"
  let ?kt = "\<lparr>selfNode = 0::nat, buckets = replicate 19 ?idle @ [?busy]\<rparr>"
  have e: "entries ?kt = [5, 3]"
    by (simp add: entries_def nodes_def)
  have h1: "sort_Sort_contract (sort_key :: (nat \<Rightarrow> int) \<Rightarrow> nat list \<Rightarrow> nat list)"
    by (rule sort_key_contract)
  have h2: "(0::int) \<le> 1" by simp
  have h3: "1 \<le> int (length (entries ?kt))" unfolding e by simp
  from FindClosest_within_total[OF h1 h2 h3, where grow="\<lambda>c n. 2 * n"
      and LogDistance="\<lambda>a b. int a" and target=0]
  obtain r where r: "FindClosest sort_key (\<lambda>c n. 2 * n) (\<lambda>a b. int a) ?kt 0 1 = Inr (map Some r)"
    and len: "length r = 1" and sub: "mset r \<subseteq># mset [5, 3]"
    and near: "\<forall>y \<in> set r. \<forall>x \<in># mset [5, 3] - mset r. int y \<le> int x"
    unfolding e by auto
  from len obtain y where y: "r = [y]"
    by (cases r) auto
  from sub y have "y = 5 \<or> y = 3"
    by (auto dest!: mset_subset_eqD[where x=y])
  moreover have "y \<noteq> 5"
  proof
    assume "y = 5"
    with near y have "int 5 \<le> int 3" by simp
    then show False by simp
  qed
  ultimately have "r = [3]" using y by simp
  with r have "FindClosest sort_key (\<lambda>c n. 2 * n) (\<lambda>a b. int a) ?kt 0 1 = Inr [Some 3]"
    by simp
  with h1 h3 show ?thesis unfolding Let_def by simp
qed

subsection \<open>store on a bucket whose map is initialised\<close>

text \<open>
  \<open>bucket_ok\<close>: the map is not nil and holds exactly the keys of the entries of the
  list, each mapped to its own element; the elements and the keys are distinct, every
  element is older than the next allocation, and the list has at most 16 entries. On
  such a bucket \<open>store\<close> never panics and does what its comment says.
\<close>

definition bucket_ok :: "('enr \<Rightarrow> string) \<Rightarrow> 'enr kBucket \<Rightarrow> bool" where
  "bucket_ok hex b \<longleftrightarrow>
     (\<exists>m. entriesMap b = Some m
        \<and> (\<forall>k i. m k = Some i \<longleftrightarrow> (\<exists>e. (i, e) \<in> set (lru b) \<and> hex (node e) = k)))
     \<and> distinct (map fst (lru b))
     \<and> distinct (map hex (nodes b))
     \<and> (\<forall>el \<in> set (lru b). fst el < fresh b)
     \<and> length (lru b) \<le> maxBucketSize"

lemma filter_neq_key:
  assumes "distinct (map f l)" and "x \<in> set l"
  shows "filter (\<lambda>p. f p \<noteq> f x) l = remove1 x l"
    and "filter (\<lambda>p. f p = f x) l = [x]"
proof -
  from assms(1) have inj: "inj_on f (set l)" and d: "distinct l"
    by (simp_all add: distinct_map)
  have "filter (\<lambda>p. f p \<noteq> f x) l = filter (\<lambda>p. p \<noteq> x) l"
    using inj assms(2) by (intro filter_cong) (auto dest: inj_onD)
  also have "\<dots> = remove1 x l"
  proof -
    have "filter (\<lambda>p. p \<noteq> x) l = filter ((\<noteq>) x) l"
      by (intro filter_cong) auto
    with d show ?thesis
      by (simp add: distinct_remove1_removeAll removeAll_filter_not_eq)
  qed
  finally show "filter (\<lambda>p. f p \<noteq> f x) l = remove1 x l" .
  have "filter (\<lambda>p. f p = f x) l = filter (\<lambda>p. p = x) l"
    using inj assms(2) by (intro filter_cong) (auto dest: inj_onD)
  also have "\<dots> = [x]"
    using d assms(2) by (induction l) (auto simp: filter_empty_conv)
  finally show "filter (\<lambda>p. f p = f x) l = [x]" .
qed

lemma filter_set_Value:
  "filter (\<lambda>p. fst p \<noteq> i) (set_Value i v l) = filter (\<lambda>p. fst p \<noteq> i) l"
  "filter (\<lambda>p. fst p = i) (set_Value i v l) = map (\<lambda>p. (i, v)) (filter (\<lambda>p. fst p = i) l)"
  unfolding set_Value_def by (induction l) auto

lemma MoveToFront_set_Value:
  assumes "distinct (map fst l)" and "(i, e) \<in> set l"
  shows "MoveToFront i (set_Value i v l) = (i, v) # remove1 (i, e) l"
  using filter_neq_key[OF assms, simplified]
  by (simp add: MoveToFront_def filter_set_Value)


lemma distinct_map_replace:
  assumes "distinct (map f l)" and "x \<in> set l" and "f y = f x"
  shows "distinct (map f (y # remove1 x l))"
proof -
  from assms(1) have d: "distinct l" and inj: "inj_on f (set l)"
    by (simp_all add: distinct_map)
  have "f x \<notin> f ` set (remove1 x l)"
  proof
    assume "f x \<in> f ` set (remove1 x l)"
    then obtain z where z: "z \<in> set (remove1 x l)" "f z = f x" by auto
    with d have "z \<in> set l" "z \<noteq> x" by auto
    with inj assms(2) z(2) show False by (auto dest: inj_onD)
  qed
  moreover have "distinct (map f (remove1 x l))"
  proof -
    have "inj_on f (set (remove1 x l))"
      using inj by (rule inj_on_subset) (rule set_remove1_subset)
    with d show ?thesis by (simp add: distinct_map)
  qed
  ultimately show ?thesis using assms(3) by simp
qed

lemma store_present:
  fixes now :: time
  assumes ok: "bucket_ok hex b" and ie: "(i, e) \<in> set (lru b)" and he: "hex (node e) = hex n"
  defines "b' \<equiv> b\<lparr>lru := (i, \<lparr>node = n, lastSeen = now\<rparr>) # remove1 (i, e) (lru b)\<rparr>"
  shows "store hex now n b = Inr b'" and "bucket_ok hex b'" and "length (lru b') = length (lru b)"
proof -
  from ok obtain m where m: "entriesMap b = Some m"
    and mk: "\<And>k j. m k = Some j \<longleftrightarrow> (\<exists>e. (j, e) \<in> set (lru b) \<and> hex (node e) = k)"
    and di: "distinct (map fst (lru b))" and dk: "distinct (map hex (nodes b))"
    and fr: "\<forall>el \<in> set (lru b). fst el < fresh b" and le: "length (lru b) \<le> maxBucketSize"
    unfolding bucket_ok_def by blast
  let ?v = "\<lparr>node = n, lastSeen = now\<rparr>"
  from di have d: "distinct (lru b)" by (simp add: distinct_map)
  have get: "map_get (entriesMap b) (hex n) = Some i"
    using mk[of "hex n" i] ie he by (auto simp: map_get_def m)
  show "store hex now n b = Inr b'"
    by (simp add: store_def get MoveToFront_set_Value[OF di ie] b'_def)
  show len: "length (lru b') = length (lru b)"
    using ie by (simp add: b'_def length_remove1) (cases "lru b", auto)
  have dk': "distinct (map (\<lambda>p. hex (node (snd p))) (lru b))"
    using dk by (simp add: nodes_def comp_def)
  have set': "set (lru b') = insert (i, ?v) (set (lru b) - {(i, e)})"
    using d by (simp add: b'_def)
  have "distinct (map fst (lru b'))"
    unfolding b'_def using distinct_map_replace[OF di ie, of "(i, ?v)"] by simp
  moreover have "distinct (map hex (nodes b'))"
    unfolding b'_def using distinct_map_replace[OF dk' ie, of "(i, ?v)"] he
    by (simp add: nodes_def comp_def)
  moreover have "\<forall>el \<in> set (lru b'). fst el < fresh b'"
    using fr ie unfolding set' by (auto simp: b'_def)
  moreover have "m k = Some j \<longleftrightarrow> (\<exists>e'. (j, e') \<in> set (lru b') \<and> hex (node e') = k)" for k j
  proof
    assume "m k = Some j"
    then obtain e0 where e0: "(j, e0) \<in> set (lru b)" "hex (node e0) = k" using mk by blast
    show "\<exists>e'. (j, e') \<in> set (lru b') \<and> hex (node e') = k"
    proof (cases "(j, e0) = (i, e)")
      case True
      with e0 he show ?thesis unfolding set' by auto
    next
      case False
      with e0 show ?thesis unfolding set' by auto
    qed
  next
    assume "\<exists>e'. (j, e') \<in> set (lru b') \<and> hex (node e') = k"
    then obtain e' where e': "(j, e') \<in> set (lru b')" "hex (node e') = k" by blast
    show "m k = Some j"
    proof (cases "(j, e') = (i, ?v)")
      case True
      with e' he ie show ?thesis using mk[of k j] by auto
    next
      case False
      with e' have "(j, e') \<in> set (lru b)" unfolding set' by auto
      with e' show ?thesis using mk by blast
    qed
  qed
  ultimately show "bucket_ok hex b'"
    unfolding bucket_ok_def using m le len by (auto simp: b'_def)
qed


lemma last_split:
  assumes "xs \<noteq> []" and "last xs = x" and "distinct xs"
  shows "x \<notin> set (butlast xs)" and "set xs = insert x (set (butlast xs))"
  using assms by (cases xs rule: rev_cases; auto)+

lemma store_absent:
  fixes now :: time
  assumes ok: "bucket_ok hex b" and miss: "hex n \<notin> hex ` set (nodes b)"
  shows "\<exists>b'. store hex now n b = Inr b' \<and> bucket_ok hex b'
           \<and> nodes b' = take maxBucketSize (n # nodes b)
           \<and> lru b' = take maxBucketSize ((fresh b, \<lparr>node = n, lastSeen = now\<rparr>) # lru b)"
proof -
  from ok obtain m where m: "entriesMap b = Some m"
    and mk: "\<And>k j. m k = Some j \<longleftrightarrow> (\<exists>e. (j, e) \<in> set (lru b) \<and> hex (node e) = k)"
    and di: "distinct (map fst (lru b))" and dk: "distinct (map hex (nodes b))"
    and fr: "\<forall>el \<in> set (lru b). fst el < fresh b" and le: "length (lru b) \<le> maxBucketSize"
    unfolding bucket_ok_def by blast
  let ?v = "\<lparr>node = n, lastSeen = now\<rparr>"
  let ?pushed = "(fresh b, ?v) # lru b"
  have none: "m (hex n) = None"
  proof (cases "m (hex n)")
    case None
    then show ?thesis .
  next
    case (Some j)
    with mk[of "hex n" j] obtain e where "(j, e) \<in> set (lru b)" "hex (node e) = hex n" by blast
    then have "hex n \<in> hex ` set (nodes b)" by (force simp: nodes_def image_iff)
    with miss show ?thesis by simp
  qed
  then have get: "map_get (Some m) (hex n) = None" by (simp add: map_get_def)
  have fresh_new: "fresh b \<notin> fst ` set (lru b)" using fr by auto
  have dk': "distinct (map (\<lambda>p. hex (node (snd p))) (lru b))"
    using dk by (simp add: nodes_def comp_def)
  have miss': "hex n \<notin> (\<lambda>p. hex (node (snd p))) ` set (lru b)"
    using miss by (simp add: nodes_def image_image)
  show ?thesis
  proof (cases "maxBucketSize < length ?pushed")
    case False
    let ?b = "\<lparr>lru = ?pushed, entriesMap = Some (m(hex n \<mapsto> fresh b)), fresh = Suc (fresh b)\<rparr>"
    have st: "store hex now n b = Inr ?b"
      using False by (simp add: store_def get m Let_def)
    have "bucket_ok hex ?b"
      unfolding bucket_ok_def
    proof (intro conjI)
      show "\<exists>m'. entriesMap ?b = Some m' \<and>
              (\<forall>k i. (m' k = Some i) = (\<exists>e. (i, e) \<in> set (lru ?b) \<and> hex (node e) = k))"
      proof (intro exI[of _ "m(hex n \<mapsto> fresh b)"] conjI allI)
        show "entriesMap ?b = Some (m(hex n \<mapsto> fresh b))" by simp
        fix k i
        show "((m(hex n \<mapsto> fresh b)) k = Some i) = (\<exists>e. (i, e) \<in> set (lru ?b) \<and> hex (node e) = k)"
        proof (cases "k = hex n")
          case True
          have "\<not> (\<exists>e. (i, e) \<in> set (lru b) \<and> hex (node e) = hex n)"
            using mk[of "hex n" i] none by simp
          with True show ?thesis by auto
        next
          case False
          have "\<not> (i = fresh b \<and> (\<exists>e. (i, e) \<in> set (lru b)))"
            using fresh_new by (force simp: image_iff)
          with False mk[of k i] show ?thesis by auto
        qed
      qed
      show "distinct (map fst (lru ?b))" using di fresh_new by simp
      show "distinct (map hex (nodes ?b))" using dk miss by (simp add: nodes_def comp_def image_image)
      show "\<forall>el \<in> set (lru ?b). fst el < fresh ?b" using fr by auto
      show "length (lru ?b) \<le> maxBucketSize" using False by simp
    qed
    moreover have "nodes ?b = take maxBucketSize (n # nodes b)"
      using False by (simp add: nodes_def)
    moreover have "lru ?b = take maxBucketSize ?pushed"
      using False by simp
    ultimately show ?thesis using st by blast
  next
    case True
    with le have full: "length (lru b) = maxBucketSize" by simp
    then have ne: "lru b \<noteq> []" by (auto simp: maxBucketSize_def)
    obtain j e where last: "last (lru b) = (j, e)" by (cases "last (lru b)")
    with ne have je: "(j, e) \<in> set (lru b)" by (metis last_in_set)
    let ?k = "hex (node e)"
    let ?m = "(m(hex n \<mapsto> fresh b))(?k := None)"
    let ?b = "\<lparr>lru = butlast ?pushed, entriesMap = Some ?m, fresh = Suc (fresh b)\<rparr>"
    have lp: "last ?pushed = (j, e)" using ne last by simp
    have st: "store hex now n b = Inr ?b"
      using True by (simp add: store_def get m Let_def lp del: butlast.simps last.simps)
    have bl: "butlast ?pushed = (fresh b, ?v) # butlast (lru b)" using ne by simp
    have kn: "?k \<noteq> hex n" using miss' je by force
    from di have d: "distinct (lru b)" by (simp add: distinct_map)
    note jnot = last_split(1)[OF ne last d] and setb = last_split(2)[OF ne last d]
    have "bucket_ok hex ?b"
      unfolding bucket_ok_def
    proof (intro conjI)
      show "\<exists>m'. entriesMap ?b = Some m' \<and>
              (\<forall>k i. (m' k = Some i) = (\<exists>e. (i, e) \<in> set (lru ?b) \<and> hex (node e) = k))"
      proof (intro exI[of _ ?m] conjI allI)
        show "entriesMap ?b = Some ?m" by simp
        fix k i
        show "(?m k = Some i) = (\<exists>e. (i, e) \<in> set (lru ?b) \<and> hex (node e) = k)"
        proof (cases "k = ?k")
          case True
          have "\<not> (\<exists>e'. (i, e') \<in> set (butlast (lru b)) \<and> hex (node e') = ?k)"
          proof
            assume "\<exists>e'. (i, e') \<in> set (butlast (lru b)) \<and> hex (node e') = ?k"
            then obtain e' where e': "(i, e') \<in> set (butlast (lru b))" "hex (node e') = ?k" by blast
            then have "(i, e') \<in> set (lru b)" by (simp add: setb)
            moreover from dk' have inj: "inj_on (\<lambda>p. hex (node (snd p))) (set (lru b))"
              by (simp add: distinct_map)
            ultimately have "(i, e') = (j, e)"
              using je e'(2) inj_onD[OF inj, of "(i, e')" "(j, e)"] by simp
            with e'(1) jnot show False by simp
          qed
          with True kn show ?thesis by (auto simp: ne)
        next
          case nk: False
          show ?thesis
          proof (cases "k = hex n")
            case True
            have "\<not> (\<exists>e. (i, e) \<in> set (lru b) \<and> hex (node e) = hex n)"
              using mk[of "hex n" i] none by simp
            then have "\<not> (\<exists>e. (i, e) \<in> set (butlast (lru b)) \<and> hex (node e) = hex n)"
              by (auto simp: setb)
            with True nk show ?thesis by (auto simp: ne)
          next
            case False
            have "\<not> (i = fresh b \<and> (\<exists>e. (i, e) \<in> set (lru b)))"
              using fresh_new by (force simp: image_iff)
            moreover have "(\<exists>e'. (i, e') \<in> set (lru b) \<and> hex (node e') = k)
                = (\<exists>e'. (i, e') \<in> set (butlast (lru b)) \<and> hex (node e') = k)"
              using nk by (auto simp: setb)
            ultimately show ?thesis using False nk mk[of k i] by (auto simp: ne)
          qed
        qed
      qed
      have sub: "set (butlast (lru b)) \<subseteq> set (lru b)" by (auto simp: setb)
      have "distinct (map fst (butlast (lru b)))"
        using di by (simp add: map_butlast distinct_butlast)
      moreover have "fresh b \<notin> fst ` set (butlast (lru b))"
        using fresh_new sub by auto
      ultimately show "distinct (map fst (lru ?b))" by (simp add: ne)
      have "distinct (map (\<lambda>p. hex (node (snd p))) (butlast (lru b)))"
        using dk' by (simp add: map_butlast distinct_butlast)
      moreover have "hex n \<notin> (\<lambda>p. hex (node (snd p))) ` set (butlast (lru b))"
        using miss' sub by auto
      ultimately show "distinct (map hex (nodes ?b))"
        by (simp add: ne nodes_def comp_def)
      have "\<forall>el \<in> set (butlast (lru b)). fst el < fresh b"
        using fr sub by blast
      then show "\<forall>el \<in> set (lru ?b). fst el < fresh ?b"
        by (auto simp: ne less_Suc_eq)
      show "length (lru ?b) \<le> maxBucketSize" using full by (simp add: ne maxBucketSize_def)
    qed
    moreover have tk: "take maxBucketSize ?pushed = butlast ?pushed"
      using full by (simp add: butlast_conv_take)
    then have "lru ?b = take maxBucketSize ?pushed" by simp
    moreover have "nodes ?b = take maxBucketSize (n # nodes b)"
    proof -
      have "nodes ?b = map (\<lambda>el. node (snd el)) (take maxBucketSize ?pushed)"
        by (simp only: nodes_def tk kBucket.simps)
      also have "\<dots> = take maxBucketSize (map (\<lambda>el. node (snd el)) ?pushed)"
        by (rule take_map[symmetric])
      also have "map (\<lambda>el. node (snd el)) ?pushed = n # nodes b"
        by (simp add: nodes_def)
      finally show ?thesis .
    qed
    ultimately show ?thesis using st by blast
  qed
qed


text \<open>A sequence of calls of \<open>store\<close> on one bucket, each with its clock reading.\<close>

fun store_each :: "('enr \<Rightarrow> string) \<Rightarrow> (time \<times> 'enr) list \<Rightarrow> 'enr kBucket \<Rightarrow> panic + 'enr kBucket" where
  "store_each hex [] b = Inr b"
| "store_each hex (tn # rest) b =
     (case store hex (fst tn) (snd tn) b of Inl e \<Rightarrow> Inl e | Inr b' \<Rightarrow> store_each hex rest b')"

lemma bucket_ok_initialised: "bucket_ok hex \<lparr>lru = [], entriesMap = Some Map.empty, fresh = 0\<rparr>"
  by (simp add: bucket_ok_def nodes_def)

lemma bucket_ok_size: "bucket_ok hex b \<Longrightarrow> length (nodes b) \<le> maxBucketSize"
  by (simp add: bucket_ok_def nodes_def)

lemma store_keeps_bucket_ok:
  assumes "bucket_ok hex b"
  shows "\<exists>b'. store hex now n b = Inr b' \<and> bucket_ok hex b'"
proof (cases "hex n \<in> hex ` set (nodes b)")
  case True
  then obtain i e where "(i, e) \<in> set (lru b)" "hex (node e) = hex n"
    by (auto simp: nodes_def)
  from store_present(1,2)[OF assms this] show ?thesis by blast
next
  case False
  from store_absent[OF assms False] show ?thesis by blast
qed

lemma take_append_take: "take k (xs @ take k ys) = take k (xs @ ys)"
  by (simp add: min_def)

lemma store_each_distinct:
  assumes "bucket_ok hex b" and "distinct (map (\<lambda>tn. hex (snd tn)) tns)"
    and "(\<lambda>tn. hex (snd tn)) ` set tns \<inter> hex ` set (nodes b) = {}"
  shows "\<exists>b'. store_each hex tns b = Inr b' \<and> bucket_ok hex b'
           \<and> nodes b' = take maxBucketSize (rev (map snd tns) @ nodes b)"
  using assms
proof (induction tns arbitrary: b)
  case Nil
  then show ?case using bucket_ok_size[of hex b] by simp
next
  case (Cons tn tns)
  from Cons.prems(3) have miss: "hex (snd tn) \<notin> hex ` set (nodes b)" by auto
  from store_absent[OF Cons.prems(1) miss, of "fst tn"] obtain b1 where
    b1: "store hex (fst tn) (snd tn) b = Inr b1" "bucket_ok hex b1"
      "nodes b1 = take maxBucketSize (snd tn # nodes b)" by blast
  have sub: "set (nodes b1) \<subseteq> insert (snd tn) (set (nodes b))"
    unfolding b1(3) using set_take_subset[of maxBucketSize "snd tn # nodes b"] by simp
  have disj: "(\<lambda>tn. hex (snd tn)) ` set tns \<inter> hex ` set (nodes b1) = {}"
  proof (rule ccontr)
    assume "(\<lambda>tn. hex (snd tn)) ` set tns \<inter> hex ` set (nodes b1) \<noteq> {}"
    then obtain x y where x: "x \<in> set tns" and y: "y \<in> set (nodes b1)"
      and xy: "hex (snd x) = hex y" by auto
    from y sub have "y = snd tn \<or> y \<in> set (nodes b)" by auto
    then show False
    proof
      assume "y = snd tn"
      with xy have "hex (snd tn) = hex (snd x)" by simp
      with x have "hex (snd tn) \<in> (\<lambda>tn. hex (snd tn)) ` set tns" by (rule image_eqI[rotated])
      with Cons.prems(2) show False by simp
    next
      assume "y \<in> set (nodes b)"
      with xy have "hex (snd x) \<in> hex ` set (nodes b)" by simp
      moreover from x have "hex (snd x) \<in> (\<lambda>tn. hex (snd tn)) ` set (tn # tns)" by simp
      ultimately show False using Cons.prems(3) by blast
    qed
  qed
  from Cons.prems(2) have "distinct (map (\<lambda>tn. hex (snd tn)) tns)" by simp
  from Cons.IH[OF b1(2) this disj] obtain b' where
    b': "store_each hex tns b1 = Inr b'" "bucket_ok hex b'"
      "nodes b' = take maxBucketSize (rev (map snd tns) @ nodes b1)" by blast
  from b'(3) have "nodes b' = take maxBucketSize (rev (map snd (tn # tns)) @ nodes b)"
    unfolding b1(3) by (simp add: take_append_take)
  with b1(1) b'(1,2) show ?case by simp
qed

lemma seventeen_stores:
  assumes "distinct (map hex ns)" and "length ns = 17"
  shows "\<exists>b'. store_each hex (map (Pair now) ns) \<lparr>lru = [], entriesMap = Some Map.empty, fresh = 0\<rparr>
               = Inr b'
           \<and> nodes b' = rev (tl ns) \<and> length (nodes b') = maxBucketSize"
proof -
  from store_each_distinct[OF bucket_ok_initialised, of hex "map (Pair now) ns"] assms(1)
  obtain b' where b': "store_each hex (map (Pair now) ns) \<lparr>lru = [], entriesMap = Some Map.empty, fresh = 0\<rparr>
      = Inr b'" "nodes b' = take maxBucketSize (rev ns)"
    by (auto simp: comp_def nodes_def)
  have "take maxBucketSize (rev ns) = rev (drop 1 ns)"
    using assms(2) by (simp add: take_rev maxBucketSize_def)
  with b' assms(2) show ?thesis by (auto simp: drop_Suc maxBucketSize_def)
qed

section \<open>Package discv4: the discovery engine (process)\<close>

text \<open>
  A Go \<open>error\<close> is an \<open>error option\<close>, \<open>None\<close> for nil. \<open>Err\<close> is
  \<open>errors.New\<close>; the errors of the collaborators (codec, socket, signer) are values of
  the same type, handed in from outside. \<open>Wrapped\<close> is what \<open>isxerrors.Errorf\<close>
  builds from the packet kind and the error it wraps.
\<close>

datatype error = Err string | Wrapped byte "error option"

text \<open>
  \<open>enr.Record\<close>, with the fields the engine reads and writes. The zero
  \<open>time.Time\<close> is 0. The public key is a value of any type \<open>'pk\<close>, and the node
  identity \<open>ID()\<close> is a function \<open>nodeID\<close> of the public key, a parameter.
\<close>

record 'pk Record =
  PublicKey :: 'pk
  Ip :: bytes
  UdpPort :: "16 word"
  TcpPort :: "16 word"
  SentPing :: time
  SentPingHash :: bytes
  ReceivedPing :: time
  ReceivedPong :: time

definition ID :: "('pk \<Rightarrow> 'id) \<Rightarrow> 'pk Record \<Rightarrow> 'id" where
  "ID nodeID r = nodeID (PublicKey r)"

definition IsZero :: "time \<Rightarrow> bool" where
  "IsZero t \<longleftrightarrow> t = 0"

text \<open>
  \<open>time.Since(t)\<close> is \<open>time.Now().Sub(t)\<close>, a 64-bit count of nanoseconds that
  saturates; \<open>now\<close> is the clock reading of the call.
\<close>

definition Since :: "time \<Rightarrow> time \<Rightarrow> int" where
  "Since now t = max (- (2 ^ 63)) (min (2 ^ 63 - 1) (now - t))"

definition Minute :: int where "Minute = 60 * 1000000000"
definition Hour :: int where "Hour = 60 * Minute"

text \<open>
  The state a handler can change: the peer map and the routing table. The package of
  \<open>kademlia.Table\<close> that the engine imports is outside the sources; the table is the
  sequence of records handed to its \<open>Insert\<close>, oldest first, each as it was when
  handed over. A record reached through a pointer of the peer map is written by updating
  the map at its key.
\<close>

record ('pk, 'id) process =
  peers :: "'id \<rightharpoonup> 'pk Record"
  ktable :: "'pk Record list"

definition ktable_Insert :: "'pk Record \<Rightarrow> ('pk, 'id) process \<Rightarrow> ('pk, 'id) process" where
  "ktable_Insert r p = p\<lparr>ktable := ktable p @ [r]\<rparr>"

text \<open>\<open>net.IP.Equal\<close>: an IPv4 address equals its 16-byte IPv6 form.\<close>

definition v4InV6Prefix :: bytes where
  "v4InV6Prefix = [0, 0, 0, 0, 0, 0, 0, 0, 0, 0, 0xff, 0xff]"

definition IP_Equal :: "bytes \<Rightarrow> bytes \<Rightarrow> bool" where
  "IP_Equal ip x =
     (if length ip = length x then ip = x
      else if length ip = 4 \<and> length x = 16 then take 12 x = v4InV6Prefix \<and> ip = drop 12 x
      else if length ip = 16 \<and> length x = 4 then take 12 ip = v4InV6Prefix \<and> drop 12 ip = x
      else False)"

subsection \<open>Ping (outbound)\<close>

text \<open>
  What the world answers during one call of \<open>Ping\<close>: the clock read by
  \<open>time.Since\<close>, the hash and error that \<open>write\<close> returns, the clock read for
  \<open>SentPing\<close>.
\<close>

record ping_world =
  skip_clock :: time
  write_result :: "bytes \<times> error option"
  sent_clock :: time

definition Ping :: "('pk \<Rightarrow> 'id) \<Rightarrow> ping_world \<Rightarrow> 'pk Record \<Rightarrow> ('pk, 'id) process
    \<Rightarrow> error option \<times> ('pk, 'id) process" where
  "Ping nodeID w dest p =
     (if (case peers p (ID nodeID dest) of
            Some pr \<Rightarrow> Since (skip_clock w) (SentPing pr) < Hour
          | None \<Rightarrow> False)
      then (None, p)
      else (case snd (write_result w) of
              Some e \<Rightarrow> (Some e, p)
            | None \<Rightarrow>
                (None, p\<lparr>peers := (peers p)(ID nodeID dest \<mapsto>
                   dest\<lparr>SentPing := sent_clock w, SentPingHash := fst (write_result w)\<rparr>)\<rparr>)))"

subsection \<open>handlePing\<close>

text \<open>
  What the world answers during one call of \<open>handlePing\<close>: the result of
  \<open>rlp.Decode\<close> on the payload and, from the decoded item, of \<open>item.At(1).At(0).IP()\<close>
  and \<open>item.At(1).At(1).Uint16()\<close>; the error of \<open>p.Pong\<close>; the clock read for
  \<open>ReceivedPing\<close>; the clock read by \<open>time.Since\<close>; and the world of the closing
  \<open>p.Ping\<close>.
\<close>

record ping_item =
  from_ip :: "error + bytes"
  from_port :: "16 word"

record handlePing_world =
  ping_decoded :: "error + ping_item"
  pong_result :: "error option"
  received_ping_clock :: time
  since_clock :: time
  ping_again :: ping_world

definition handlePing :: "('pk \<Rightarrow> 'id) \<Rightarrow> handlePing_world \<Rightarrow> 'pk Record \<Rightarrow> ('pk, 'id) process
    \<Rightarrow> error option \<times> ('pk, 'id) process" where
  "handlePing nodeID w req p =
     (case ping_decoded w of
        Inl e \<Rightarrow> (Some e, p)
      | Inr item \<Rightarrow>
          (case from_ip item of
             Inl e \<Rightarrow> (Some (Err ''malformed ping from data''), p)
           | Inr reqFrom \<Rightarrow>
               if \<not> IP_Equal reqFrom (Ip req)
               then (Some (Err ''packet ip address doesn't match udp''), p)
               else if from_port item \<noteq> UdpPort req
               then (Some (Err ''mismatch ping from-port with udp packet''), p)
               else (case pong_result w of
                       Some e \<Rightarrow> (Some e, p)
                     | None \<Rightarrow>
                         (let (peer, p1) =
                                (case peers p (ID nodeID req) of
                                   Some known \<Rightarrow> (known, p)
                                 | None \<Rightarrow> (req, p\<lparr>peers := (peers p)(ID nodeID req \<mapsto> req)\<rparr>));
                              peer = peer\<lparr>ReceivedPing := received_ping_clock w\<rparr>;
                              p2 = p1\<lparr>peers := (peers p1)(ID nodeID req \<mapsto> peer)\<rparr>;
                              p3 = (if \<not> IsZero (ReceivedPing peer) \<and> \<not> IsZero (ReceivedPong peer)
                                    then ktable_Insert peer p2 else p2)
                          in if Hour < Since (since_clock w) (SentPing peer)
                             then Ping nodeID (ping_again w) peer p3
                             else (None, p3)))))"

subsection \<open>handlePong\<close>

text \<open>
  The world of \<open>handlePong\<close>: the result of \<open>rlp.Decode\<close> and, from the decoded item,
  of \<open>item.At(1).Hash()\<close>; the clock read by \<open>time.Since\<close>; the clock read for
  \<open>ReceivedPong\<close>.
\<close>

record pong_item =
  ping_hash :: "error + bytes"

record handlePong_world =
  pong_decoded :: "error + pong_item"
  expiry_clock :: time
  received_pong_clock :: time

definition handlePong :: "('pk \<Rightarrow> 'id) \<Rightarrow> handlePong_world \<Rightarrow> 'pk Record \<Rightarrow> ('pk, 'id) process
    \<Rightarrow> error option \<times> ('pk, 'id) process" where
  "handlePong nodeID w req p =
     (case pong_decoded w of
        Inl e \<Rightarrow> (Some e, p)
      | Inr item \<Rightarrow>
          (case ping_hash item of
             Inl e \<Rightarrow> (Some e, p)
           | Inr hash \<Rightarrow>
               (case peers p (ID nodeID req) of
                  None \<Rightarrow> (Some (Err ''missing peer''), p)
                | Some peer \<Rightarrow>
                    if SentPingHash peer \<noteq> hash then (Some (Err ''invalid ping hash''), p)
                    else if Minute < Since (expiry_clock w) (SentPing peer)
                    then (Some (Err ''expired ping hash''), p)
                    else
                      (let peer = peer\<lparr>ReceivedPong := received_pong_clock w\<rparr>;
                           p1 = p\<lparr>peers := (peers p)(ID nodeID req \<mapsto> peer)\<rparr>
                       in if \<not> IsZero (ReceivedPing peer) \<and> \<not> IsZero (ReceivedPong peer)
                          then (None, ktable_Insert peer p1)
                          else (None, p1)))))"

subsection \<open>handleFindNode, handleNeighbors, handleENRRequest\<close>

text \<open>
  \<open>handleFindNode\<close> decodes, reads the table and writes the answer. Its world: the
  error of \<open>rlp.Decode\<close> and the error of \<open>write\<close>.
\<close>

record handleFindNode_world =
  find_decoded :: "error option"
  find_written :: "error option"

definition handleFindNode :: "handleFindNode_world \<Rightarrow> 'pk Record \<Rightarrow> ('pk, 'id) process
    \<Rightarrow> error option \<times> ('pk, 'id) process" where
  "handleFindNode w req p =
     (case find_decoded w of
        Some e \<Rightarrow> (Some e, p)
      | None \<Rightarrow> (find_written w, p))"

text \<open>
  \<open>handleNeighbors\<close>: its first loop builds the list \<open>records\<close> from the payload or
  returns an error (\<open>neighbors_parsed\<close>); its second loop pings each record and stops
  at the first error. \<open>pings i\<close> is the world of the \<open>i\<close>-th call of \<open>Ping\<close>.
\<close>

record 'pk handleNeighbors_world =
  neighbors_parsed :: "error + 'pk Record list"
  pings :: "nat \<Rightarrow> ping_world"

fun ping_each :: "('pk \<Rightarrow> 'id) \<Rightarrow> (nat \<Rightarrow> ping_world) \<Rightarrow> nat \<Rightarrow> 'pk Record list
    \<Rightarrow> ('pk, 'id) process \<Rightarrow> error option \<times> ('pk, 'id) process" where
  "ping_each nodeID ws i [] p = (None, p)"
| "ping_each nodeID ws i (rec # recs) p =
     (case Ping nodeID (ws i) rec p of
        (Some e, p') \<Rightarrow> (Some e, p')
      | (None, p') \<Rightarrow> ping_each nodeID ws (Suc i) recs p')"

definition handleNeighbors :: "('pk \<Rightarrow> 'id) \<Rightarrow> 'pk handleNeighbors_world \<Rightarrow> 'pk Record
    \<Rightarrow> ('pk, 'id) process \<Rightarrow> error option \<times> ('pk, 'id) process" where
  "handleNeighbors nodeID w req p =
     (case neighbors_parsed w of
        Inl e \<Rightarrow> (Some e, p)
      | Inr records \<Rightarrow> ping_each nodeID (pings w) 0 records p)"

text \<open>
  \<open>handleENRRequest\<close>. Its world: the result of \<open>rlp.Decode\<close> with the expiration
  read from the item, the clock, the error of \<open>MarshalRLP\<close>, the error of \<open>write\<close>.
\<close>

record handleENRRequest_world =
  enr_decoded :: "error + time"
  enr_clock :: time
  enr_marshalled :: "error option"
  enr_written :: "error option"

definition handleENRRequest :: "handleENRRequest_world \<Rightarrow> 'pk Record \<Rightarrow> ('pk, 'id) process
    \<Rightarrow> error option \<times> ('pk, 'id) process" where
  "handleENRRequest w req p =
     (case enr_decoded w of
        Inl e \<Rightarrow> (Some e, p)
      | Inr expiration \<Rightarrow>
          if expiration < enr_clock w then (Some (Err ''expired enr request''), p)
          else (case enr_marshalled w of
                  Some e \<Rightarrow> (Some e, p)
                | None \<Rightarrow> (enr_written w, p)))"

subsection \<open>serve\<close>

definition hashSize :: nat where "hashSize = 32"
definition sigSize :: nat where "sigSize = 65"
definition kindSize :: nat where "kindSize = 1"
definition headerSize :: nat where "headerSize = hashSize + sigSize + kindSize"

text \<open>
  Modelled from the spec: \<open>isxerrors.Errorf\<close>, whose package is outside the sources.
  The spec says of it that it "formats a nil error into a non-nil value": it returns an
  error whether the error it wraps is nil or not.
\<close>

definition Errorf :: "byte \<Rightarrow> error option \<Rightarrow> error option" where
  "Errorf kind err = Some (Wrapped kind err)"

record UDPAddr =
  IP :: bytes
  Port :: int

text \<open>
  The five handlers that \<open>serve\<close> dispatches to, each taking the sender's record and
  the packet.
\<close>

type_synonym ('pk, 'id) handler =
  "'pk Record \<Rightarrow> bytes \<Rightarrow> ('pk, 'id) process \<Rightarrow> error option \<times> ('pk, 'id) process"

record ('pk, 'id) handlers =
  on_ping :: "('pk, 'id) handler"
  on_pong :: "('pk, 'id) handler"
  on_find_node :: "('pk, 'id) handler"
  on_neighbors :: "('pk, 'id) handler"
  on_enr_request :: "('pk, 'id) handler"

text \<open>
  The record \<open>req\<close> that \<open>serve\<close> builds for the sender: the recovered key and the
  wire source, the zero value in every other field. \<open>dispatch\<close> is the \<open>switch\<close>
  on the packet kind; in its default branch \<open>err\<close> is still the nil that
  \<open>Recover\<close> returned.
\<close>

definition sender :: "'pk \<Rightarrow> UDPAddr \<Rightarrow> 'pk Record" where
  "sender fromPubkey uaddr =
     \<lparr>PublicKey = fromPubkey, Ip = IP uaddr, UdpPort = of_int (Port uaddr),
      TcpPort = 0, SentPing = 0, SentPingHash = replicate 32 0,
      ReceivedPing = 0, ReceivedPong = 0\<rparr>"

definition dispatch :: "('pk, 'id) handlers \<Rightarrow> byte \<Rightarrow> ('pk, 'id) handler" where
  "dispatch hs kind req packet p =
     (if kind = 0x01 then on_ping hs req packet p
      else if kind = 0x02 then on_pong hs req packet p
      else if kind = 0x03 then on_find_node hs req packet p
      else if kind = 0x04 then on_neighbors hs req packet p
      else if kind = 0x05 then on_enr_request hs req packet p
      else (None, p))"

text \<open>\<open>Keccak\<close> and \<open>Recover\<close> (\<open>isxhash\<close>, \<open>isxsecp256k1\<close>) are parameters.\<close>

definition serve :: "(bytes \<Rightarrow> bytes) \<Rightarrow> (bytes \<Rightarrow> bytes \<Rightarrow> error + 'pk) \<Rightarrow> ('pk, 'id) handlers
    \<Rightarrow> UDPAddr \<Rightarrow> bytes \<Rightarrow> ('pk, 'id) process \<Rightarrow> error option \<times> ('pk, 'id) process" where
  "serve Keccak Recover hs uaddr packet p =
     (if length packet \<le> headerSize then (Some (Err ''discv4 packet too small''), p)
      else if take hashSize packet \<noteq> Keccak (drop hashSize packet)
      then (Some (Err ''packet contains invalid hash''), p)
      else (case Recover (take sigSize (drop hashSize packet))
                         (Keccak (drop (hashSize + sigSize) packet)) of
              Inl e \<Rightarrow> (Some (Err ''unable to extract pubkey from packet''), p)
            | Inr fromPubkey \<Rightarrow>
                (let req = sender fromPubkey uaddr;
                     kind = packet ! (hashSize + sigSize);
                     (err, p') = dispatch hs kind req packet p
                 in (Errorf kind err, p'))))"

subsection \<open>Bonding\<close>

text \<open>
  A record is bonded when both \<open>ReceivedPing\<close> and \<open>ReceivedPong\<close> are set.
  \<open>ping_accepted\<close>: the Ping decodes, its from-fields match the wire source, and the
  Pong went out. \<open>pinged_peer\<close> is then the sender's record with its new
  \<open>ReceivedPing\<close>: the stored one, or \<open>req\<close> for a sender not yet known.
  \<open>pong_accepted\<close> and \<open>ponged_peer\<close> are the same for a Pong: it decodes, the
  sender is known, the hash is the one sent, and not more than a minute has passed.
\<close>

definition bonded :: "'pk Record \<Rightarrow> bool" where
  "bonded r \<longleftrightarrow> \<not> IsZero (ReceivedPing r) \<and> \<not> IsZero (ReceivedPong r)"

definition from_fields_match :: "handlePing_world \<Rightarrow> 'pk Record \<Rightarrow> bool" where
  "from_fields_match w req =
     (case ping_decoded w of
        Inl e \<Rightarrow> False
      | Inr item \<Rightarrow>
          (case from_ip item of
             Inl e \<Rightarrow> False
           | Inr reqFrom \<Rightarrow> IP_Equal reqFrom (Ip req) \<and> from_port item = UdpPort req))"

definition ping_accepted :: "handlePing_world \<Rightarrow> 'pk Record \<Rightarrow> bool" where
  "ping_accepted w req \<longleftrightarrow> from_fields_match w req \<and> pong_result w = None"

definition pinged_peer :: "('pk \<Rightarrow> 'id) \<Rightarrow> handlePing_world \<Rightarrow> 'pk Record \<Rightarrow> ('pk, 'id) process
    \<Rightarrow> 'pk Record" where
  "pinged_peer nodeID w req p =
     (case peers p (ID nodeID req) of Some known \<Rightarrow> known | None \<Rightarrow> req)
       \<lparr>ReceivedPing := received_ping_clock w\<rparr>"

definition pong_accepted :: "('pk \<Rightarrow> 'id) \<Rightarrow> handlePong_world \<Rightarrow> 'pk Record \<Rightarrow> ('pk, 'id) process
    \<Rightarrow> bool" where
  "pong_accepted nodeID w req p =
     (case pong_decoded w of
        Inl e \<Rightarrow> False
      | Inr item \<Rightarrow>
          (case ping_hash item of
             Inl e \<Rightarrow> False
           | Inr hash \<Rightarrow>
               (case peers p (ID nodeID req) of
                  None \<Rightarrow> False
                | Some peer \<Rightarrow>
                    SentPingHash peer = hash \<and> Since (expiry_clock w) (SentPing peer) \<le> Minute)))"

definition ponged_peer :: "('pk \<Rightarrow> 'id) \<Rightarrow> handlePong_world \<Rightarrow> 'pk Record \<Rightarrow> ('pk, 'id) process
    \<Rightarrow> 'pk Record" where
  "ponged_peer nodeID w req p =
     (case peers p (ID nodeID req) of Some known \<Rightarrow> known | None \<Rightarrow> req)
       \<lparr>ReceivedPong := received_pong_clock w\<rparr>"

subsection \<open>What the handlers do to the routing table and to a Pong\<close>

lemma Ping_ktable: "ktable (snd (Ping nodeID w dest p)) = ktable p"
  by (simp add: Ping_def split: option.splits)

lemma ping_each_ktable: "ktable (snd (ping_each nodeID ws i recs p)) = ktable p"
proof (induction recs arbitrary: i p)
  case Nil
  show ?case by simp
next
  case (Cons r recs)
  obtain e p' where pr: "Ping nodeID (ws i) r p = (e, p')" by (cases "Ping nodeID (ws i) r p")
  then have "ktable p' = ktable p" using Ping_ktable[of nodeID "ws i" r p] by simp
  with pr Cons.IH[of "Suc i" p'] show ?case by (cases e) simp_all
qed

lemma handlePing_ktable:
  "ktable (snd (handlePing nodeID w req p)) =
     (if ping_accepted w req \<and> bonded (pinged_peer nodeID w req p)
      then ktable p @ [pinged_peer nodeID w req p] else ktable p)"
  by (auto simp: handlePing_def ping_accepted_def from_fields_match_def pinged_peer_def bonded_def
      ktable_Insert_def Ping_ktable Let_def split: sum.splits option.splits)

lemma handlePong_ktable:
  "ktable (snd (handlePong nodeID w req p)) =
     (if pong_accepted nodeID w req p \<and> bonded (ponged_peer nodeID w req p)
      then ktable p @ [ponged_peer nodeID w req p] else ktable p)"
  by (auto simp: handlePong_def pong_accepted_def ponged_peer_def bonded_def
      ktable_Insert_def Let_def split: sum.splits option.splits)

lemma others_ktable:
  "ktable (snd (handleFindNode wfn req p)) = ktable p"
  "ktable (snd (handleNeighbors nodeID wn req p)) = ktable p"
  "ktable (snd (handleENRRequest we req p)) = ktable p"
  by (auto simp: handleFindNode_def handleNeighbors_def handleENRRequest_def ping_each_ktable
      split: sum.splits option.splits)

lemma handlePong_rejected:
  "\<not> pong_accepted nodeID w req p \<Longrightarrow> \<exists>e. handlePong nodeID w req p = (Some e, p)"
  by (auto simp: handlePong_def pong_accepted_def split: sum.splits option.splits)

lemma handlePong_accepted:
  "pong_accepted nodeID w req p \<Longrightarrow>
   fst (handlePong nodeID w req p) = None
   \<and> peers (snd (handlePong nodeID w req p)) = (peers p)(ID nodeID req \<mapsto> ponged_peer nodeID w req p)"
  by (auto simp: handlePong_def pong_accepted_def ponged_peer_def ktable_Insert_def Let_def
      split: sum.splits option.splits)

section \<open>The claims\<close>

text \<open>
  C1 (long strings and long lists carry a minimal big-endian length). \<open>encodeLength\<close>
  writes the length with \<open>PutUvarint\<close>, seven bits per byte and least significant
  group first, not big-endian. The two agree up to 127; from 128 on they differ. A string
  of 128 bytes gets the header \<open>B9 80 01\<close>, where big-endian asks for \<open>B8 80\<close>.
\<close>

theorem Encode_long_string_is_uvarint:
  "Encode (Item (Some (replicate 128 0)) None) = Inr ([0xB9, 0x80, 0x01] @ replicate 128 0)"
  by code_simp

text \<open>
  C2 (round trip). For every well-formed Item (exactly one of \<open>D\<close> and \<open>L\<close> set at every
  node) \<open>Encode\<close> returns bytes, and \<open>Decode\<close> of a slice holding exactly those bytes
  returns the Item, whatever lies in the spare capacity of the slice. The bound
  \<open>2 ^ 56\<close> on the size is the one every Go slice meets: beyond it \<open>PutUvarint\<close>
  would overrun the eight-byte buffer of \<open>encodeLength\<close>. The case of a byte string
  \<open>B\<close> is \<open>T = Item (Some B) None\<close>.
\<close>

theorem Decode_Encode_round_trip:
  assumes "wf_Item T" and "enc_bound T < 2 ^ 56"
  shows "\<exists>e. Encode T = Inr e \<and> (\<forall>sp. Decode \<lparr>elems = e, spare = sp\<rparr> = Inr T)"
  using Encode_decodes[OF assms] unfolding decodes_to_def by blast

theorem Decode_Encode_round_trip_witness:
  "wf_Item (Item None (Some [Item (Some [0x63, 0x61, 0x74]) None, Item None (Some [])]))
   \<and> enc_bound (Item None (Some [Item (Some [0x63, 0x61, 0x74]) None, Item None (Some [])])) < 2 ^ 56
   \<and> (\<exists>e. Encode (Item None (Some [Item (Some [0x63, 0x61, 0x74]) None, Item None (Some [])])) = Inr e
        \<and> (\<forall>sp. Decode \<lparr>elems = e, spare = sp\<rparr>
               = Inr (Item None (Some [Item (Some [0x63, 0x61, 0x74]) None, Item None (Some [])]))))"
  using Decode_Encode_round_trip
    [of "Item None (Some [Item (Some [0x63, 0x61, 0x74]) None, Item None (Some [])])"]
  by simp

text \<open>
  C3 (FindClosest returns \<open>min(k, total)\<close> entries, ties in insertion order).
  \<open>FindClosest\<close> returns \<open>s.nodes[:count]\<close> and never compares \<open>count\<close> with the
  number of entries. On the table that \<open>newKademliaTable\<close> returns, which has no
  entry, the gathered slice has capacity 0: with count 1 the slice expression panics,
  where \<open>min(1, 0) = 0\<close> entries were to be returned.
\<close>

theorem FindClosest_empty_table_panics:
  "FindClosest sort_key (\<lambda>c n. 2 * n) (\<lambda>a b. 0) (newKademliaTable (0::nat)) 0 1 = Inl SliceBounds"
  by (simp add: FindClosest_def gather_def newKademliaTable_def bucketsCount_def nodes_def
      append_nodes_def slice_to_def Let_def eval_nat_numeral)

text \<open>
  C4 (malformed input is an error; bytes after a complete list are not absorbed).
  \<open>Decode\<close> has no error result and reads no declared list length. The byte after the
  complete empty list \<open>C0\<close> is decoded as a child of it; a list header that declares two
  bytes of payload over a single byte decodes all the same; and a string header that
  declares more bytes than the slice holds reads them from the spare capacity.
\<close>

theorem Decode_absorbs_trailing_bytes:
  "Decode \<lparr>elems = [0xC0, 0x01], spare = []\<rparr> = Inr (Item None (Some [Item (Some [0x01]) None]))
   \<and> Decode \<lparr>elems = [0xC2, 0x01], spare = []\<rparr> = Inr (Item None (Some [Item (Some [0x01]) None]))
   \<and> Decode \<lparr>elems = [0x83, 0x61], spare = [0x62, 0x63, 0x64]\<rparr>
       = Inr (Item (Some [0x61, 0x62, 0x63]) None)"
  by code_simp

text \<open>
  C5 (buckets hold at most 16 entries, re-insertion moves to the front, the 17th
  insertion evicts the back). \<open>store\<close> cannot take its first node: the table that
  \<open>newKademliaTable\<close> builds has a nil \<open>entriesMap\<close> in every bucket, the lookup
  misses, and the assignment into the nil map panics. So does every \<open>Insert\<close> into a
  new table, whatever the node (a distance past 256 indexes outside the bucket array).
\<close>

theorem Insert_new_table_panics:
  "Insert LogDistance NodeAddrHex now n (newKademliaTable self)
   = (if LogDistance self n \<le> addrByteSize then Inl NilMapAssign else Inl IndexOutOfRange)"
  by (auto simp: Insert_def newKademliaTable_def Let_def store_def map_get_def
      minLogDistance_def addrByteSize_def bucketsCount_def)

text \<open>
  C6 (a peer enters the routing table if and only if both timestamps are set). For each
  handler, what it hands to the table's \<open>Insert\<close>: \<open>handlePing\<close> and
  \<open>handlePong\<close> insert the sender's record exactly when they accept the packet and the
  record, with the timestamp just written, is bonded; they insert nothing otherwise; and
  the other three handlers insert nothing at all.
\<close>

theorem insert_iff_bonded:
  "ktable (snd (handlePing nodeID wp req p)) =
     (if ping_accepted wp req \<and> bonded (pinged_peer nodeID wp req p)
      then ktable p @ [pinged_peer nodeID wp req p] else ktable p)
   \<and> ktable (snd (handlePong nodeID wq req p)) =
     (if pong_accepted nodeID wq req p \<and> bonded (ponged_peer nodeID wq req p)
      then ktable p @ [ponged_peer nodeID wq req p] else ktable p)
   \<and> ktable (snd (handleFindNode wfn req p)) = ktable p
   \<and> ktable (snd (handleNeighbors nodeID wn req p)) = ktable p
   \<and> ktable (snd (handleENRRequest we req p)) = ktable p"
  by (simp only: handlePing_ktable handlePong_ktable others_ktable simp_thms)

text \<open>
  C7 (\<open>handlePong\<close> rejects an unknown sender, a wrong ping hash and a Pong more than a
  minute after the Ping, and leaves the state as it was). Each of the three conditions
  alone yields an error and the same state; every error leaves the state the same; an
  accepted Pong (\<open>pong_accepted\<close>: decoded, sender known, hash equal, at most a minute)
  writes \<open>ReceivedPong\<close> with the clock of the call; and a Pong that is not accepted is
  rejected.
\<close>

theorem handlePong_checks:
  "(peers p (ID nodeID req) = None \<longrightarrow> (\<exists>e. handlePong nodeID w req p = (Some e, p)))
   \<and> (\<forall>peer item hash. peers p (ID nodeID req) = Some peer \<and> pong_decoded w = Inr item
          \<and> ping_hash item = Inr hash \<and> hash \<noteq> SentPingHash peer
        \<longrightarrow> (\<exists>e. handlePong nodeID w req p = (Some e, p)))
   \<and> (\<forall>peer. peers p (ID nodeID req) = Some peer
          \<and> Minute < Since (expiry_clock w) (SentPing peer)
        \<longrightarrow> (\<exists>e. handlePong nodeID w req p = (Some e, p)))
   \<and> (fst (handlePong nodeID w req p) \<noteq> None \<longrightarrow> snd (handlePong nodeID w req p) = p)
   \<and> (pong_accepted nodeID w req p \<longrightarrow>
        fst (handlePong nodeID w req p) = None
        \<and> peers (snd (handlePong nodeID w req p))
            = (peers p)(ID nodeID req \<mapsto> ponged_peer nodeID w req p)
        \<and> ReceivedPong (ponged_peer nodeID w req p) = received_pong_clock w)
   \<and> (\<not> pong_accepted nodeID w req p \<longrightarrow> (\<exists>e. handlePong nodeID w req p = (Some e, p)))"
proof (intro conjI allI impI)
  assume "peers p (ID nodeID req) = None"
  then have "\<not> pong_accepted nodeID w req p"
    by (simp add: pong_accepted_def split: sum.splits)
  then show "\<exists>e. handlePong nodeID w req p = (Some e, p)" by (rule handlePong_rejected)
next
  fix peer item hash
  assume "peers p (ID nodeID req) = Some peer \<and> pong_decoded w = Inr item
          \<and> ping_hash item = Inr hash \<and> hash \<noteq> SentPingHash peer"
  then have "\<not> pong_accepted nodeID w req p"
    by (auto simp: pong_accepted_def)
  then show "\<exists>e. handlePong nodeID w req p = (Some e, p)" by (rule handlePong_rejected)
next
  fix peer
  assume "peers p (ID nodeID req) = Some peer \<and> Minute < Since (expiry_clock w) (SentPing peer)"
  then have "\<not> pong_accepted nodeID w req p"
    by (auto simp: pong_accepted_def split: sum.splits)
  then show "\<exists>e. handlePong nodeID w req p = (Some e, p)" by (rule handlePong_rejected)
next
  assume e: "fst (handlePong nodeID w req p) \<noteq> None"
  show "snd (handlePong nodeID w req p) = p"
  proof (cases "pong_accepted nodeID w req p")
    case True
    with handlePong_accepted[OF True] e show ?thesis by simp
  next
    case False
    from handlePong_rejected[OF False] show ?thesis by auto
  qed
next
  assume a: "pong_accepted nodeID w req p"
  from handlePong_accepted[OF a] show "fst (handlePong nodeID w req p) = None" by simp
  from handlePong_accepted[OF a]
  show "peers (snd (handlePong nodeID w req p)) = (peers p)(ID nodeID req \<mapsto> ponged_peer nodeID w req p)"
    by simp
  show "ReceivedPong (ponged_peer nodeID w req p) = received_pong_clock w"
    by (simp add: ponged_peer_def)
next
  assume "\<not> pong_accepted nodeID w req p"
  then show "\<exists>e. handlePong nodeID w req p = (Some e, p)" by (rule handlePong_rejected)
qed

theorem handlePong_checks_witness:
  "(let known = (sender (7::nat) \<lparr>IP = [10, 0, 0, 1], Port = 30303\<rparr>)
                  \<lparr>SentPing := 1000000000, SentPingHash := replicate 32 0xAB\<rparr>;
        req = sender (7::nat) \<lparr>IP = [10, 0, 0, 1], Port = 30303\<rparr>;
        nobody = \<lparr>peers = (Map.empty :: nat \<rightharpoonup> nat Record), ktable = []\<rparr>;
        p = \<lparr>peers = [7 \<mapsto> known], ktable = []\<rparr>;
        good = \<lparr>pong_decoded = Inr \<lparr>ping_hash = Inr (replicate 32 0xAB)\<rparr>,
                 expiry_clock = 2000000000, received_pong_clock = 2000000001\<rparr>;
        wrong = \<lparr>pong_decoded = Inr \<lparr>ping_hash = Inr (replicate 32 0xCD)\<rparr>,
                  expiry_clock = 2000000000, received_pong_clock = 2000000001\<rparr>;
        late = \<lparr>pong_decoded = Inr \<lparr>ping_hash = Inr (replicate 32 0xAB)\<rparr>,
                 expiry_clock = 62000000000, received_pong_clock = 62000000001\<rparr>
    in handlePong (\<lambda>k. k) good req nobody = (Some (Err ''missing peer''), nobody)
       \<and> handlePong (\<lambda>k. k) wrong req p = (Some (Err ''invalid ping hash''), p)
       \<and> handlePong (\<lambda>k. k) late req p = (Some (Err ''expired ping hash''), p)
       \<and> pong_accepted (\<lambda>k. k) good req p
       \<and> fst (handlePong (\<lambda>k. k) good req p) = None
       \<and> peers (snd (handlePong (\<lambda>k. k) good req p)) 7
           = Some (known\<lparr>ReceivedPong := 2000000001\<rparr>))"
proof -
  let ?known = "(sender (7::nat) \<lparr>IP = [10, 0, 0, 1], Port = 30303\<rparr>)
                  \<lparr>SentPing := 1000000000, SentPingHash := replicate 32 0xAB\<rparr>"
  let ?req = "sender (7::nat) \<lparr>IP = [10, 0, 0, 1], Port = 30303\<rparr>"
  let ?p = "\<lparr>peers = [7 \<mapsto> ?known], ktable = []\<rparr> :: (nat, nat) process"
  let ?good = "\<lparr>pong_decoded = Inr \<lparr>ping_hash = Inr (replicate 32 0xAB)\<rparr>,
                 expiry_clock = 2000000000, received_pong_clock = 2000000001\<rparr>"
  have a: "pong_accepted (\<lambda>k. k) ?good ?req ?p"
    by (simp add: pong_accepted_def ID_def sender_def Since_def Minute_def)
  from handlePong_checks[of ?p "\<lambda>k. k" ?req ?good] a
  have "fst (handlePong (\<lambda>k. k) ?good ?req ?p) = None
        \<and> peers (snd (handlePong (\<lambda>k. k) ?good ?req ?p))
             = (peers ?p)(ID (\<lambda>k. k) ?req \<mapsto> ponged_peer (\<lambda>k. k) ?good ?req ?p)"
    by blast
  then have "fst (handlePong (\<lambda>k. k) ?good ?req ?p) = None
        \<and> peers (snd (handlePong (\<lambda>k. k) ?good ?req ?p)) 7
             = Some (?known\<lparr>ReceivedPong := 2000000001\<rparr>)"
    by (simp add: ID_def sender_def ponged_peer_def)
  with a show ?thesis
    by (simp add: Let_def handlePong_def ID_def sender_def Since_def Minute_def)
qed

text \<open>
  C8 (an Item with both fields set is refused). \<open>Encode\<close> returns bytes only; with
  \<open>D\<close> non-nil it never looks at \<open>L\<close>. The item of the test table's case
  "setting L & D" encodes as the empty string.
\<close>

theorem Encode_both_fields_set:
  "Encode (Item (Some []) (Some [])) = Inr [0x80]"
  by code_simp

text \<open>
  C9 (\<open>serve\<close> returns an error on its success paths too). With \<open>isxerrors.Errorf\<close>
  as the spec describes it, \<open>serve\<close> never returns nil; for a packet that passes the
  hash and signature checks and whose handler returns nil, it returns the wrapping of
  nil.
\<close>

theorem serve_returns_error_on_success:
  "fst (serve Keccak Recover hs uaddr packet p) \<noteq> None
   \<and> (headerSize < length packet
        \<and> take hashSize packet = Keccak (drop hashSize packet)
        \<and> Recover (take sigSize (drop hashSize packet))
                   (Keccak (drop (hashSize + sigSize) packet)) = Inr pk
        \<and> dispatch hs (packet ! (hashSize + sigSize)) (sender pk uaddr) packet p = (None, p')
      \<longrightarrow> serve Keccak Recover hs uaddr packet p
            = (Some (Wrapped (packet ! (hashSize + sigSize)) None), p'))"
  by (auto simp: serve_def Errorf_def Let_def split: sum.splits prod.splits)

theorem serve_returns_error_on_success_witness:
  "(let Keccak = (\<lambda>bs. replicate 32 (0::byte));
        Recover = (\<lambda>sig h. Inr (7::nat));
        quiet = (\<lambda>req packet p. (None, p));
        hs = \<lparr>on_ping = quiet, on_pong = quiet, on_find_node = quiet, on_neighbors = quiet,
              on_enr_request = quiet\<rparr>;
        uaddr = \<lparr>IP = [10, 0, 0, 1], Port = 30303\<rparr>;
        packet = replicate 97 0 @ [0x01, 0xC0];
        p = \<lparr>peers = (Map.empty :: nat \<rightharpoonup> nat Record), ktable = []\<rparr>
    in headerSize < length packet
       \<and> take hashSize packet = Keccak (drop hashSize packet)
       \<and> Recover (take sigSize (drop hashSize packet))
                  (Keccak (drop (hashSize + sigSize) packet)) = Inr 7
       \<and> dispatch hs (packet ! (hashSize + sigSize)) (sender 7 uaddr) packet p = (None, p)
       \<and> serve Keccak Recover hs uaddr packet p = (Some (Wrapped 0x01 None), p))"
proof -
  let ?Keccak = "\<lambda>bs::bytes. replicate 32 (0::byte)"
  let ?Recover = "\<lambda>(sig::bytes) (h::bytes). (Inr (7::nat) :: error + nat)"
  let ?quiet = "\<lambda>(req::nat Record) (packet::bytes) (p::(nat, nat) process). (None :: error option, p)"
  let ?hs = "\<lparr>on_ping = ?quiet, on_pong = ?quiet, on_find_node = ?quiet, on_neighbors = ?quiet,
              on_enr_request = ?quiet\<rparr>"
  let ?uaddr = "\<lparr>IP = [10, 0, 0, 1], Port = 30303\<rparr>"
  let ?packet = "replicate 97 0 @ [0x01, 0xC0 :: byte]"
  let ?p = "\<lparr>peers = (Map.empty :: nat \<rightharpoonup> nat Record), ktable = []\<rparr>"
  have k: "?packet ! (hashSize + sigSize) = 0x01"
    by (simp add: hashSize_def sigSize_def nth_append)
  have h: "headerSize < length ?packet
       \<and> take hashSize ?packet = ?Keccak (drop hashSize ?packet)
       \<and> ?Recover (take sigSize (drop hashSize ?packet))
                  (?Keccak (drop (hashSize + sigSize) ?packet)) = Inr 7
       \<and> dispatch ?hs (?packet ! (hashSize + sigSize)) (sender 7 ?uaddr) ?packet ?p = (None, ?p)"
    unfolding k by (simp add: headerSize_def hashSize_def sigSize_def kindSize_def dispatch_def)
  from serve_returns_error_on_success[of ?Keccak ?Recover ?hs ?uaddr ?packet ?p 7 ?p] h k
  show ?thesis by (simp add: Let_def)
qed

text \<open>
  C10 (the Pong is sent before the peer state is touched). When the from-fields of a Ping
  match the wire source and \<open>p.Pong\<close> fails, \<open>handlePing\<close> returns that error and the
  state it was given: peer map and routing table unchanged, no record created for a
  sender not known before.
\<close>

theorem handlePing_pong_write_fails:
  assumes "from_fields_match w req" and "pong_result w = Some e"
  shows "handlePing nodeID w req p = (Some e, p)"
  using assms
  by (auto simp: handlePing_def from_fields_match_def split: sum.splits)

theorem handlePing_pong_write_fails_witness:
  "(let w = \<lparr>ping_decoded = Inr \<lparr>from_ip = Inr [10, 0, 0, 1], from_port = 30303\<rparr>,
              pong_result = Some (Err ''write udp: network is unreachable''),
              received_ping_clock = 1700000000, since_clock = 1700000001,
              ping_again = \<lparr>skip_clock = 1700000002, write_result = ([], None),
                            sent_clock = 1700000003\<rparr>\<rparr>;
        req = sender (7::nat) \<lparr>IP = [10, 0, 0, 1], Port = 30303\<rparr>;
        p = \<lparr>peers = (Map.empty :: nat \<rightharpoonup> nat Record), ktable = []\<rparr>
    in from_fields_match w req
       \<and> pong_result w = Some (Err ''write udp: network is unreachable'')
       \<and> peers p (ID (\<lambda>k. k) req) = None
       \<and> handlePing (\<lambda>k. k) w req p = (Some (Err ''write udp: network is unreachable''), p))"
proof -
  let ?w = "\<lparr>ping_decoded = Inr \<lparr>from_ip = Inr [10, 0, 0, 1], from_port = 30303\<rparr>,
              pong_result = Some (Err ''write udp: network is unreachable''),
              received_ping_clock = 1700000000, since_clock = 1700000001,
              ping_again = \<lparr>skip_clock = 1700000002, write_result = ([], None),
                            sent_clock = 1700000003\<rparr>\<rparr>"
  let ?req = "sender (7::nat) \<lparr>IP = [10, 0, 0, 1], Port = 30303\<rparr>"
  have h1: "from_fields_match ?w ?req"
    by (simp add: from_fields_match_def sender_def IP_Equal_def)
  have h2: "pong_result ?w = Some (Err ''write udp: network is unreachable'')" by simp
  from handlePing_pong_write_fails[OF h1 h2] h1 show ?thesis
    by (simp add: Let_def)
qed

end
